theory Spec2Isabelle
  imports
    Complex_Main
    "HOL-Library.AList"
    "HOL-Library.Char_ord"
    "HOL-Library.List_Lexorder"
    "HOL-Library.Product_Lexorder"
begin

section \<open>JSON values\<close>

text \<open>
  The cache adapter (\<^verbatim>\<open>getCachedJson\<close>, \<^verbatim>\<open>setCachedJson\<close>) stores
  \<^verbatim>\<open>JSON.stringify(value)\<close> and answers \<^verbatim>\<open>JSON.parse(payload)\<close>, or JavaScript's
  \<^verbatim>\<open>null\<close>. A value is \<^verbatim>\<open>null\<close>, a boolean, a number, a string, an array of values
  or an object (the list of its members in enumeration order). The numbers and the
  strings are those of the runtime (doubles, strings of 16-bit code units); they are type
  parameters, so nothing below depends on which numbers or strings there are.
\<close>

datatype ('n, 's) json =
    JNull
  | JBool bool
  | JNum 'n
  | JStr 's
  | JArr "('n, 's) json list"
  | JObj "('s \<times> ('n, 's) json) list"

section \<open>Strings\<close>

text \<open>\<^verbatim>\<open>Array.prototype.join\<close> on strings.\<close>

fun join_with :: "string \<Rightarrow> string list \<Rightarrow> string" where
  "join_with sep [] = []"
| "join_with sep [s] = s"
| "join_with sep (s # t # ss) = s @ sep @ join_with sep (t # ss)"

text \<open>A natural number in decimal, as a template literal writes it.\<close>

function digits_of :: "nat \<Rightarrow> string" where
  "digits_of n =
     (if n < 10 then [char_of (48 + n)]
      else digits_of (n div 10) @ [char_of (48 + n mod 10)])"
  by pat_completeness auto
termination
  by (relation "measure (\<lambda>n. n)") auto

declare digits_of.simps [simp del]

section \<open>The cache store adapter\<close>

text \<open>
  The store is the Redis connection the adapter is handed. Of its commands the adapter
  uses \<^verbatim>\<open>GET key\<close>, \<^verbatim>\<open>SET key payload\<close>, \<^verbatim>\<open>SET key payload EX seconds\<close>
  and \<^verbatim>\<open>DEL key\<close>. A key holds a payload and, when it was set with \<^verbatim>\<open>EX\<close>, the
  expiry it was given in seconds; a plain \<^verbatim>\<open>SET\<close> drops an expiry the key had.
  \<^verbatim>\<open>GET\<close> of a key that is not there answers \<^verbatim>\<open>null\<close>, here \<open>None\<close>.
\<close>

type_synonym redis = "string \<rightharpoonup> string \<times> int option"

definition redis_get :: "redis \<Rightarrow> string \<Rightarrow> string option" where
  "redis_get redis key = map_option fst (redis key)"

definition redis_expiry :: "redis \<Rightarrow> string \<Rightarrow> int option" where
  "redis_expiry redis key = (case redis key of None \<Rightarrow> None | Some (payload, ex) \<Rightarrow> ex)"

definition redis_exists :: "redis \<Rightarrow> string \<Rightarrow> bool" where
  "redis_exists redis key = (redis key \<noteq> None)"

definition redis_set :: "redis \<Rightarrow> string \<Rightarrow> string \<Rightarrow> redis" where
  "redis_set redis key payload = redis(key \<mapsto> (payload, None))"

definition redis_set_ex :: "redis \<Rightarrow> string \<Rightarrow> string \<Rightarrow> int \<Rightarrow> redis" where
  "redis_set_ex redis key payload seconds = redis(key \<mapsto> (payload, Some seconds))"

definition redis_del :: "redis \<Rightarrow> string \<Rightarrow> redis" where
  "redis_del redis key = redis(key := None)"

text \<open>
  \<^verbatim>\<open>JSON.parse\<close> and \<^verbatim>\<open>JSON.stringify\<close> are built-ins of the JavaScript runtime,
  not code of the repository. They are parameters of the two functions: \<open>JSON_parse\<close>
  answers the value of a text or what it throws, \<open>JSON_stringify\<close> the text of a value.

  \<^verbatim>\<open>getCachedJson\<close> answers \<^verbatim>\<open>T | null\<close>: the parsed value, or JavaScript's
  \<^verbatim>\<open>null\<close> (\<open>JNull\<close>) for "absent". \<^verbatim>\<open>!payload\<close> holds for \<^verbatim>\<open>null\<close> and for the
  empty string. The \<^verbatim>\<open>catch\<close> block takes whatever \<^verbatim>\<open>JSON.parse\<close> throws. The
  function returns its answer together with the store as it leaves it.
\<close>

definition getCachedJson ::
  "(string \<Rightarrow> 'e + ('n, 's) json) \<Rightarrow> redis \<Rightarrow> string \<Rightarrow> ('n, 's) json \<times> redis"
where
  "getCachedJson JSON_parse redis key =
     (case redis_get redis key of
        None \<Rightarrow> (JNull, redis)
      | Some payload \<Rightarrow>
          if payload = [] then (JNull, redis)
          else
            (case JSON_parse payload of
               Inr v \<Rightarrow> (v, redis)
             | Inl error \<Rightarrow> (JNull, redis_del redis key)))"

definition setCachedJson ::
  "('v \<Rightarrow> string) \<Rightarrow> redis \<Rightarrow> string \<Rightarrow> 'v \<Rightarrow> int \<Rightarrow> redis"
where
  "setCachedJson JSON_stringify redis key v ttlSeconds =
     (let payload = JSON_stringify v
      in if ttlSeconds > 0 then redis_set_ex redis key payload ttlSeconds
         else redis_set redis key payload)"

text \<open>
  A value is JSON-serializable when \<^verbatim>\<open>JSON.stringify\<close> writes a text for it (a
  non-empty string) and \<^verbatim>\<open>JSON.parse\<close> reads that text back as the same value. The
  notion is about the runtime's two functions and the value, whatever its numbers and
  strings are.
\<close>

definition json_serializable ::
  "(string \<Rightarrow> 'e + 'v) \<Rightarrow> ('v \<Rightarrow> string) \<Rightarrow> 'v \<Rightarrow> bool"
where
  "json_serializable JSON_parse JSON_stringify v =
     (JSON_stringify v \<noteq> [] \<and> JSON_parse (JSON_stringify v) = Inr v)"

section \<open>A codec for the integer fragment of JSON\<close>

text \<open>
  Where a theorem about the adapter is tried on a concrete input, a concrete pair of
  functions stands for \<^verbatim>\<open>JSON.parse\<close> and \<^verbatim>\<open>JSON.stringify\<close>. The pair defined here
  is a codec for a fragment of JSON: the values whose numbers are integers and whose
  strings are made of 8-bit characters. On the fragment it follows ECMA-262: the
  serializer writes integers in plain decimal (as the runtime does for integers of fewer
  than 22 digits) and quotes strings as QuoteJSONString does; the parser reads what the
  JSON grammar allows and keeps the members of an object as they are written. A text
  that is JSON but not of the fragment (a number with a fraction or an exponent, a
  \<^verbatim>\<open>\u\<close> escape above \<^verbatim>\<open>00FF\<close>) is refused by this parser, where the runtime reads
  it. No theorem about the adapter depends on this codec: each holds for every pair of
  functions.
\<close>

type_synonym fragment_json = "(int, string) json"

datatype js_error = SyntaxError

abbreviation DQUOTE :: char where "DQUOTE \<equiv> CHR 0x22"
abbreviation BACKSLASH :: char where "BACKSLASH \<equiv> CHR 0x5C"

subsection \<open>Writing a value\<close>

definition hex_digit :: "nat \<Rightarrow> char" where
  "hex_digit n = char_of (if n < 10 then 48 + n else 87 + n)"

text \<open>QuoteJSONString of ECMA-262, one character at a time.\<close>

definition quote_char :: "char \<Rightarrow> string" where
  "quote_char c =
     (if c = DQUOTE then [BACKSLASH, DQUOTE]
      else if c = BACKSLASH then [BACKSLASH, BACKSLASH]
      else if c = CHR 0x08 then [BACKSLASH, CHR ''b'']
      else if c = CHR 0x0C then [BACKSLASH, CHR ''f'']
      else if c = CHR 0x0A then [BACKSLASH, CHR ''n'']
      else if c = CHR 0x0D then [BACKSLASH, CHR ''r'']
      else if c = CHR 0x09 then [BACKSLASH, CHR ''t'']
      else if (of_char c :: nat) < 32 then
        [BACKSLASH, CHR ''u'', CHR ''0'', CHR ''0'',
         hex_digit ((of_char c :: nat) div 16), hex_digit ((of_char c :: nat) mod 16)]
      else [c])"

definition quote_string :: "string \<Rightarrow> string" where
  "quote_string s = DQUOTE # concat (map quote_char s) @ [DQUOTE]"

text \<open>An integer of the fragment, in plain decimal.\<close>

definition number_to_string :: "int \<Rightarrow> string" where
  "number_to_string i = (if i < 0 then CHR ''-'' # digits_of (nat (- i)) else digits_of (nat i))"

primrec fragment_stringify :: "fragment_json \<Rightarrow> string" where
  "fragment_stringify JNull = ''null''"
| "fragment_stringify (JBool b) = (if b then ''true'' else ''false'')"
| "fragment_stringify (JNum i) = number_to_string i"
| "fragment_stringify (JStr s) = quote_string s"
| "fragment_stringify (JArr xs) = CHR ''['' # join_with '','' (map fragment_stringify xs) @ '']''"
| "fragment_stringify (JObj kvs) =
     CHR ''{'' #
     join_with '',''
       (map (\<lambda>(k, s). quote_string k @ CHR '':'' # s) (map (map_prod id fragment_stringify) kvs))
     @ ''}''"

subsection \<open>Reading a text\<close>

definition is_ws :: "char \<Rightarrow> bool" where
  "is_ws c = (c = CHR '' '' \<or> c = CHR 0x09 \<or> c = CHR 0x0A \<or> c = CHR 0x0D)"

definition skip_ws :: "string \<Rightarrow> string" where
  "skip_ws s = dropWhile is_ws s"

definition is_digit :: "char \<Rightarrow> bool" where
  "is_digit c = (48 \<le> (of_char c :: nat) \<and> (of_char c :: nat) \<le> 57)"

definition digit_val :: "char \<Rightarrow> nat" where
  "digit_val c = of_char c - 48"

definition nat_of_digits :: "string \<Rightarrow> nat" where
  "nat_of_digits ds = foldl (\<lambda>a c. 10 * a + digit_val c) 0 ds"

definition hex_val :: "char \<Rightarrow> nat option" where
  "hex_val c =
     (let n = (of_char c :: nat) in
      if 48 \<le> n \<and> n \<le> 57 then Some (n - 48)
      else if 97 \<le> n \<and> n \<le> 102 then Some (n - 87)
      else if 65 \<le> n \<and> n \<le> 70 then Some (n - 55)
      else None)"

text \<open>
  A \<^verbatim>\<open>\uXXXX\<close> escape. A code unit above \<^verbatim>\<open>00FF\<close> is no character of the
  fragment, and the text is refused.
\<close>

definition unicode_escape :: "char \<Rightarrow> char \<Rightarrow> char \<Rightarrow> char \<Rightarrow> char option" where
  "unicode_escape h1 h2 h3 h4 =
     (case (hex_val h1, hex_val h2, hex_val h3, hex_val h4) of
        (Some a, Some b, Some c, Some d) \<Rightarrow>
          if a = 0 \<and> b = 0 then Some (char_of (16 * c + d)) else None
      | _ \<Rightarrow> None)"

definition simple_escape :: "char \<Rightarrow> char option" where
  "simple_escape e =
     (if e = DQUOTE then Some DQUOTE
      else if e = BACKSLASH then Some BACKSLASH
      else if e = CHR ''/'' then Some CHR ''/''
      else if e = CHR ''b'' then Some (CHR 0x08)
      else if e = CHR ''f'' then Some (CHR 0x0C)
      else if e = CHR ''n'' then Some (CHR 0x0A)
      else if e = CHR ''r'' then Some (CHR 0x0D)
      else if e = CHR ''t'' then Some (CHR 0x09)
      else None)"

text \<open>The characters of a string literal after its opening quote, up to the closing one.\<close>

fun parse_chars :: "string \<Rightarrow> (string \<times> string) option" where
  "parse_chars [] = None"
| "parse_chars (c # r) =
     (if c = DQUOTE then Some ([], r)
      else if c = BACKSLASH then
        (case r of
           [] \<Rightarrow> None
         | e # r' \<Rightarrow>
             if e = CHR ''u'' then
               (case r' of
                  h1 # h2 # h3 # h4 # r'' \<Rightarrow>
                    (case unicode_escape h1 h2 h3 h4 of
                       None \<Rightarrow> None
                     | Some ch \<Rightarrow> map_option (apfst ((#) ch)) (parse_chars r''))
                | _ \<Rightarrow> None)
             else
               (case simple_escape e of
                  None \<Rightarrow> None
                | Some ch \<Rightarrow> map_option (apfst ((#) ch)) (parse_chars r')))
      else if (of_char c :: nat) < 32 then None
      else map_option (apfst ((#) c)) (parse_chars r))"

text \<open>
  An integer literal: an optional minus sign, then \<^verbatim>\<open>0\<close> or a digit run without a
  leading zero. A following fraction or exponent makes the literal a number that is not
  of the fragment, and the text is refused.
\<close>

definition parse_number :: "string \<Rightarrow> (int \<times> string) option" where
  "parse_number s =
     (let neg = (s \<noteq> [] \<and> hd s = CHR ''-'');
          s1 = (if neg then tl s else s);
          ds = takeWhile is_digit s1;
          rest = dropWhile is_digit s1
      in if ds = [] then None
         else if hd ds = CHR ''0'' \<and> 1 < length ds then None
         else if rest \<noteq> [] \<and> (hd rest = CHR ''.'' \<or> hd rest = CHR ''e'' \<or> hd rest = CHR ''E'')
           then None
         else Some (if neg then - int (nat_of_digits ds) else int (nat_of_digits ds), rest))"

text \<open>
  Recursive descent over a value, the elements of an array and the members of an object.
  The first argument bounds the depth of the recursion. \<open>fragment_parse\<close> supplies
  \<open>Suc (length text)\<close>: an opening bracket is consumed before the elements or members
  are entered, and every element or member is followed by a comma or by the closing
  bracket, so a text that parses within any bound parses within this one (lemma
  \<open>fragment_parse_any_fuel\<close> below).
\<close>

fun parse_value :: "nat \<Rightarrow> string \<Rightarrow> (fragment_json \<times> string) option"
  and parse_elements :: "nat \<Rightarrow> string \<Rightarrow> (fragment_json list \<times> string) option"
  and parse_members :: "nat \<Rightarrow> string \<Rightarrow> ((string \<times> fragment_json) list \<times> string) option"
where
  "parse_value 0 s = None"
| "parse_value (Suc n) s =
     (case s of
        [] \<Rightarrow> None
      | c # r \<Rightarrow>
          if c = CHR ''n'' then (if take 3 r = ''ull'' then Some (JNull, drop 3 r) else None)
          else if c = CHR ''t'' then
            (if take 3 r = ''rue'' then Some (JBool True, drop 3 r) else None)
          else if c = CHR ''f'' then
            (if take 4 r = ''alse'' then Some (JBool False, drop 4 r) else None)
          else if c = DQUOTE then map_option (apfst JStr) (parse_chars r)
          else if c = CHR ''['' then
            (case skip_ws r of
               [] \<Rightarrow> None
             | c' # r' \<Rightarrow>
                 if c' = CHR '']'' then Some (JArr [], r')
                 else map_option (apfst JArr) (parse_elements n (c' # r')))
          else if c = CHR ''{'' then
            (case skip_ws r of
               [] \<Rightarrow> None
             | c' # r' \<Rightarrow>
                 if c' = CHR ''}'' then Some (JObj [], r')
                 else map_option (apfst JObj) (parse_members n (c' # r')))
          else map_option (apfst JNum) (parse_number s))"
| "parse_elements 0 s = None"
| "parse_elements (Suc n) s =
     (case parse_value n (skip_ws s) of
        None \<Rightarrow> None
      | Some (v, r) \<Rightarrow>
          (case skip_ws r of
             [] \<Rightarrow> None
           | c # r' \<Rightarrow>
               if c = CHR '','' then map_option (apfst ((#) v)) (parse_elements n r')
               else if c = CHR '']'' then Some ([v], r')
               else None))"
| "parse_members 0 s = None"
| "parse_members (Suc n) s =
     (case skip_ws s of
        [] \<Rightarrow> None
      | c # r \<Rightarrow>
          if c = DQUOTE then
            (case parse_chars r of
               None \<Rightarrow> None
             | Some (k, r1) \<Rightarrow>
                 (case skip_ws r1 of
                    [] \<Rightarrow> None
                  | c1 # r2 \<Rightarrow>
                      if c1 = CHR '':'' then
                        (case parse_value n (skip_ws r2) of
                           None \<Rightarrow> None
                         | Some (v, r3) \<Rightarrow>
                             (case skip_ws r3 of
                                [] \<Rightarrow> None
                              | c3 # r4 \<Rightarrow>
                                  if c3 = CHR '','' then
                                    map_option (apfst ((#) (k, v))) (parse_members n r4)
                                  else if c3 = CHR ''}'' then Some ([(k, v)], r4)
                                  else None))
                      else None))
          else None)"

definition fragment_parse :: "string \<Rightarrow> js_error + fragment_json" where
  "fragment_parse text =
     (case parse_value (Suc (length text)) (skip_ws text) of
        None \<Rightarrow> Inl SyntaxError
      | Some (v, r) \<Rightarrow> if skip_ws r = [] then Inr v else Inl SyntaxError)"

subsection \<open>Notions for the round trip of the codec\<close>

text \<open>
  What may follow an integer literal for it to be read back whole (the end of the text
  or a character that neither extends the digits nor starts a fraction or an exponent),
  the characters a serialized value can start with, and the text of one object member.
\<close>

definition number_follow :: "string \<Rightarrow> bool" where
  "number_follow r =
     (r = [] \<or> (\<not> is_digit (hd r) \<and> hd r \<noteq> CHR ''.'' \<and> hd r \<noteq> CHR ''e'' \<and> hd r \<noteq> CHR ''E''))"

definition value_start :: "char \<Rightarrow> bool" where
  "value_start c =
     (c = CHR ''n'' \<or> c = CHR ''t'' \<or> c = CHR ''f'' \<or> c = DQUOTE \<or> c = CHR ''[''
      \<or> c = CHR ''{'' \<or> c = CHR ''-'' \<or> is_digit c)"

definition member_string :: "string \<times> fragment_json \<Rightarrow> string" where
  "member_string kv = quote_string (fst kv) @ CHR '':'' # fragment_stringify (snd kv)"

subsection \<open>One number with a fraction\<close>

text \<open>
  The fragment has no number with a fraction. Where a theorem is tried on one, this pair
  stands for the runtime on the single text involved: \<^verbatim>\<open>JSON.stringify(0.5)\<close> is
  \<^verbatim>\<open>0.5\<close>, and \<^verbatim>\<open>JSON.parse\<close> reads that text as the number one half. Numbers are
  rationals here; the pair knows no other text.
\<close>

definition half_stringify :: "(rat, string) json \<Rightarrow> string" where
  "half_stringify v = (if v = JNum (1 / 2) then ''0.5'' else [])"

definition half_parse :: "string \<Rightarrow> js_error + (rat, string) json" where
  "half_parse s = (if s = ''0.5'' then Inr (JNum (1 / 2)) else Inl SyntaxError)"

section \<open>Process configuration\<close>

text \<open>
  \<^verbatim>\<open>loadConfig\<close> reads the module variable \<^verbatim>\<open>cachedConfig\<close> (initially
  \<^verbatim>\<open>null\<close>) and \<^verbatim>\<open>process.env\<close>. Both are passed explicitly here, and the
  variable is returned as the call leaves it. \<^verbatim>\<open>envSchema.safeParse\<close> is the schema
  library's validator for the schema object of the module; it is a parameter: it answers
  the parsed configuration, or the issues it found. A thrown \<^verbatim>\<open>Error\<close> is the left
  summand of the result. A configuration object is truthy, so \<^verbatim>\<open>if (cachedConfig)\<close>
  tests for \<^verbatim>\<open>null\<close>.
\<close>

record zod_issue =
  path :: "string list"
  message :: string

datatype config_error = Error string

definition issue_text :: "zod_issue \<Rightarrow> string" where
  "issue_text issue = join_with ''.'' (path issue) @ '': '' @ message issue"

definition loadConfig ::
  "('env \<Rightarrow> zod_issue list + 'cfg) \<Rightarrow> 'env \<Rightarrow> 'cfg option \<Rightarrow> (config_error + 'cfg) \<times> 'cfg option"
where
  "loadConfig safeParse process_env cachedConfig =
     (case cachedConfig of
        Some config \<Rightarrow> (Inr config, cachedConfig)
      | None \<Rightarrow>
          (case safeParse process_env of
             Inl issues \<Rightarrow>
               (Inl (Error (''ContentService configuration invalid: ''
                      @ join_with ''; '' (map issue_text issues))),
                cachedConfig)
           | Inr data \<Rightarrow> (Inr data, Some data)))"

definition resetConfigCache :: "'cfg option \<Rightarrow> 'cfg option" where
  "resetConfigCache cachedConfig = None"

text \<open>
  A run of \<^verbatim>\<open>loadConfig\<close> calls, one per environment of the list as the process
  finds it at that call: the answers in order, and the variable after the last call.
\<close>

fun loadConfig_calls ::
  "('env \<Rightarrow> zod_issue list + 'cfg) \<Rightarrow> 'env list \<Rightarrow> 'cfg option
     \<Rightarrow> (config_error + 'cfg) list \<times> 'cfg option"
where
  "loadConfig_calls safeParse [] cachedConfig = ([], cachedConfig)"
| "loadConfig_calls safeParse (env # envs) cachedConfig =
     (case loadConfig safeParse env cachedConfig of
        (answer, cachedConfig') \<Rightarrow>
          (case loadConfig_calls safeParse envs cachedConfig' of
             (answers, cachedConfig'') \<Rightarrow> (answer # answers, cachedConfig'')))"

text \<open>
  A schema with one required entry, as \<^verbatim>\<open>REDIS_URL: z.string().url()\<close> is required in
  \<^verbatim>\<open>envSchema\<close>: an environment without the variable yields the issue
  \<^verbatim>\<open>Required\<close> at its path.
\<close>

definition required_entry_schema :: "string \<Rightarrow> (string \<rightharpoonup> string) \<Rightarrow> zod_issue list + string" where
  "required_entry_schema name env =
     (case env name of
        None \<Rightarrow> Inl [\<lparr>path = [name], message = ''Required''\<rparr>]
      | Some v \<Rightarrow> Inr v)"

section \<open>Data quality monitor\<close>

text \<open>
  The routes read two things of a \<^verbatim>\<open>CatalogConsistencyError\<close>: \<^verbatim>\<open>error.issue.kind\<close>
  and \<^verbatim>\<open>error.issue.attributes.episodeId\<close>. The error wraps one issue. The module
  that declares the error and the monitor (\<^verbatim>\<open>services/data-quality-monitor\<close>) is not
  among the sources.
\<close>

text \<open>
  Modelled from the spec: the issue kinds of \<^verbatim>\<open>QualityIssue\<close>, which
  \<^verbatim>\<open>services/data-quality-monitor\<close> declares. The spec names "feed item references
  nonexistent series", "episode missing finalized asset" and "series has zero playable
  episodes", and lists a fourth check, on timestamps.
\<close>

datatype issue_kind =
    FeedItemReferencesNonexistentSeries
  | EpisodeMissingFinalizedAsset
  | SeriesHasZeroPlayableEpisodes
  | TimestampInvalid

record quality_issue =
  kind :: issue_kind
  episodeId :: string

text \<open>
  Modelled from the spec: the part of a \<^verbatim>\<open>FeedItem\<close> the monitor's checks read
  (the record is declared in \<^verbatim>\<open>schemas/viewer-catalog\<close>, not among the sources): its
  content id, its nullable series id, whether it is exposed as playable, its streaming
  asset reference, and its publish timestamp (\<open>None\<close> when it is not well-formed).
\<close>

record feed_item =
  contentId :: string
  seriesId :: "string option"
  playable :: bool
  streamingAssetId :: "string option"
  publishedAt :: "int option"

text \<open>
  Modelled from the spec: what the monitor of \<^verbatim>\<open>services/data-quality-monitor\<close>
  validates against; the spec gives the known series and a bound for "the far future".
  The monitor holds no state of its own.
\<close>

record monitor_context =
  knownSeries :: "string set"
  latestTimestamp :: int

text \<open>
  Modelled from the spec: the checks of \<^verbatim>\<open>DataQualityMonitor\<close> on one item, in the
  order the spec lists them: every series reference resolves to a known series; every
  item exposed as playable has a non-null streaming asset reference; timestamps are
  well-formed and not in the far future. \<open>item_issues\<close> is every violation of an item
  (what an aggregate report would hold); \<open>check_item\<close> stops at the first.
\<close>

definition series_unresolved :: "monitor_context \<Rightarrow> feed_item \<Rightarrow> bool" where
  "series_unresolved ctx item =
     (case seriesId item of None \<Rightarrow> False | Some s \<Rightarrow> s \<notin> knownSeries ctx)"

definition asset_missing :: "feed_item \<Rightarrow> bool" where
  "asset_missing item = (playable item \<and> streamingAssetId item = None)"

definition timestamp_invalid :: "monitor_context \<Rightarrow> feed_item \<Rightarrow> bool" where
  "timestamp_invalid ctx item =
     (case publishedAt item of None \<Rightarrow> True | Some t \<Rightarrow> latestTimestamp ctx < t)"

definition issue_of :: "issue_kind \<Rightarrow> feed_item \<Rightarrow> quality_issue" where
  "issue_of k item = \<lparr>kind = k, episodeId = contentId item\<rparr>"

definition item_issues :: "monitor_context \<Rightarrow> feed_item \<Rightarrow> quality_issue list" where
  "item_issues ctx item =
     (if series_unresolved ctx item then [issue_of FeedItemReferencesNonexistentSeries item] else [])
     @ (if asset_missing item then [issue_of EpisodeMissingFinalizedAsset item] else [])
     @ (if timestamp_invalid ctx item then [issue_of TimestampInvalid item] else [])"

definition check_item :: "monitor_context \<Rightarrow> feed_item \<Rightarrow> quality_issue option" where
  "check_item ctx item =
     (if series_unresolved ctx item then Some (issue_of FeedItemReferencesNonexistentSeries item)
      else if asset_missing item then Some (issue_of EpisodeMissingFinalizedAsset item)
      else if timestamp_invalid ctx item then Some (issue_of TimestampInvalid item)
      else None)"

definition all_issues :: "monitor_context \<Rightarrow> feed_item list \<Rightarrow> quality_issue list" where
  "all_issues ctx items = concat (map (item_issues ctx) items)"

fun first_issue :: "monitor_context \<Rightarrow> feed_item list \<Rightarrow> quality_issue option" where
  "first_issue ctx [] = None"
| "first_issue ctx (item # items) =
     (case check_item ctx item of
        Some issue \<Rightarrow> Some issue
      | None \<Rightarrow> first_issue ctx items)"

text \<open>
  What a service call may throw, as the routes tell the cases apart:
  \<^verbatim>\<open>error instanceof CatalogConsistencyError\<close> with its issue,
  \<^verbatim>\<open>error instanceof CatalogServiceError\<close> with its \<^verbatim>\<open>code\<close> and \<^verbatim>\<open>message\<close>, an
  error of \<^verbatim>\<open>fastify.httpErrors\<close> with its status code and message, or anything else.
\<close>

datatype thrown =
    CatalogConsistencyError quality_issue
  | CatalogServiceError string string
  | HttpError nat string
  | OtherError string

text \<open>
  Modelled from the spec: \<^verbatim>\<open>DataQualityMonitor\<close>'s validation of a feed payload (of
  \<^verbatim>\<open>services/data-quality-monitor\<close>): on a violation it raises a
  \<^verbatim>\<open>CatalogConsistencyError\<close> wrapping the first violation found; otherwise the
  payload passes.
\<close>

definition validateFeed :: "monitor_context \<Rightarrow> feed_item list \<Rightarrow> thrown + feed_item list" where
  "validateFeed ctx items =
     (case first_issue ctx items of
        Some issue \<Rightarrow> Inl (CatalogConsistencyError issue)
      | None \<Rightarrow> Inr items)"

text \<open>
  Modelled from the spec: a \<^verbatim>\<open>SeriesDetail\<close> (of \<^verbatim>\<open>schemas/viewer-catalog\<close>):
  the series, its seasons, each a sequence of items, and its standalone episodes; and the
  monitor's validation of one: a series with zero episodes across all seasons and the
  standalone list is flagged, and every episode passes the item checks.
\<close>

record series_detail =
  series :: string
  seasons :: "feed_item list list"
  standaloneEpisodes :: "feed_item list"

definition validateSeriesDetail :: "monitor_context \<Rightarrow> series_detail \<Rightarrow> thrown + series_detail" where
  "validateSeriesDetail ctx detail =
     (let episodes = concat (seasons detail) @ standaloneEpisodes detail
      in if episodes = [] then
           Inl (CatalogConsistencyError
                  \<lparr>kind = SeriesHasZeroPlayableEpisodes, episodeId = series detail\<rparr>)
         else
           (case first_issue ctx episodes of
              Some issue \<Rightarrow> Inl (CatalogConsistencyError issue)
            | None \<Rightarrow> Inr detail))"

section \<open>Viewer catalog orchestrator\<close>

text \<open>
  Every query method answers its payload with a \<^verbatim>\<open>fromCache\<close> flag, which the
  routes read for the \<^verbatim>\<open>x-cache\<close> header.
\<close>

record 'p query_result =
  content :: 'p
  fromCache :: bool

text \<open>
  Modelled from the spec: \<^verbatim>\<open>ViewerCatalogService.getFeed\<close> (of
  \<^verbatim>\<open>services/viewer-catalog-service\<close>). On a cache hit and on a miss alike the
  composed payload (from the cache, or from the system of record with the trending
  enrichment) is validated by the monitor before it is returned; \<open>cached\<close> says which of
  the two it was.
\<close>

definition getFeed ::
  "monitor_context \<Rightarrow> feed_item list \<Rightarrow> string option \<Rightarrow> bool
     \<Rightarrow> thrown + (feed_item list \<times> string option) query_result"
where
  "getFeed ctx composed cursor cached =
     (case validateFeed ctx composed of
        Inl error \<Rightarrow> Inl error
      | Inr items \<Rightarrow> Inr \<lparr>content = (items, cursor), fromCache = cached\<rparr>)"

text \<open>
  Modelled from the spec: \<^verbatim>\<open>ViewerCatalogService.getSeriesDetail\<close> and
  \<^verbatim>\<open>getRelatedSeries\<close> (of \<^verbatim>\<open>services/viewer-catalog-service\<close>). \<open>resolve\<close>
  is the lookup of a slug; when the slug does not resolve the method returns the
  not-found sentinel (\<^verbatim>\<open>null\<close>, here \<open>None\<close>) as a value. A resolved series is
  validated by the monitor. The related series are capped at the caller's limit.
\<close>

definition getSeriesDetail ::
  "monitor_context \<Rightarrow> (string \<rightharpoonup> series_detail) \<Rightarrow> bool \<Rightarrow> string
     \<Rightarrow> thrown + series_detail query_result option"
where
  "getSeriesDetail ctx resolve cached slug =
     (case resolve slug of
        None \<Rightarrow> Inr None
      | Some detail \<Rightarrow>
          (case validateSeriesDetail ctx detail of
             Inl error \<Rightarrow> Inl error
           | Inr d \<Rightarrow> Inr (Some \<lparr>content = d, fromCache = cached\<rparr>)))"

definition getRelatedSeries ::
  "monitor_context \<Rightarrow> (string \<rightharpoonup> series_detail) \<Rightarrow> (series_detail \<Rightarrow> feed_item list) \<Rightarrow> bool
     \<Rightarrow> string \<Rightarrow> nat \<Rightarrow> thrown + feed_item list query_result option"
where
  "getRelatedSeries ctx resolve related cached slug limit =
     (case resolve slug of
        None \<Rightarrow> Inr None
      | Some detail \<Rightarrow>
          (case validateFeed ctx (take limit (related detail)) of
             Inl error \<Rightarrow> Inl error
           | Inr items \<Rightarrow> Inr (Some \<lparr>content = items, fromCache = cached\<rparr>)))"

section \<open>HTTP routes\<close>

text \<open>
  A handler either sends or returns a reply, or throws. A reply has a status (200 when the
  handler returns a value without setting one), the headers the handler set, and a body:
  the payload of the query, \<^verbatim>\<open>{ message }\<close>, \<^verbatim>\<open>{ message, issue }\<close> or
  \<^verbatim>\<open>{ accepted: true }\<close>. What a handler writes with \<^verbatim>\<open>request.log.error\<close> is
  returned beside its outcome. Each handler is embedded from the point where the service
  call is awaited: the outcome of that call is its argument.
\<close>

datatype 'p http_body =
    Data 'p
  | MessageBody string
  | IssueBody string issue_kind
  | AcceptedBody

record 'p http_reply =
  status :: nat
  headers :: "(string \<times> string) list"
  body :: "'p http_body"

datatype log_field = Err thrown | ContentId string | Issue issue_kind | EpisodeId string

datatype log_entry = LogError "log_field list" string

text \<open>
  The status the client receives: the reply's, or, when the handler throws, the one the
  framework's error handler sends: the status code of an error of
  \<^verbatim>\<open>fastify.httpErrors\<close>, and 500 for any other error.
\<close>

definition client_status :: "thrown + 'p http_reply \<Rightarrow> nat" where
  "client_status outcome =
     (case outcome of
        Inr reply \<Rightarrow> status reply
      | Inl (HttpError code msg) \<Rightarrow> code
      | Inl _ \<Rightarrow> 500)"

subsection \<open>Viewer catalog routes\<close>

definition cache_headers :: "nat \<Rightarrow> bool \<Rightarrow> (string \<times> string) list" where
  "cache_headers ttl cached =
     [(''cache-control'', ''public, max-age='' @ digits_of ttl),
      (''x-cache'', if cached then ''hit'' else ''miss'')]"

text \<open>The \<^verbatim>\<open>catch\<close> block the three routes share, but for the log message.\<close>

definition quality_failure ::
  "string \<Rightarrow> thrown \<Rightarrow> (thrown + 'p http_reply) \<times> log_entry list"
where
  "quality_failure log_message error =
     (case error of
        CatalogConsistencyError issue \<Rightarrow>
          (Inr \<lparr>status = 500, headers = [],
                body = IssueBody ''Catalog data quality issue'' (kind issue)\<rparr>,
           [LogError [Err error, ContentId (episodeId issue), Issue (kind issue)] log_message])
      | _ \<Rightarrow> (Inl error, []))"

text \<open>\<^verbatim>\<open>GET /feed\<close>, after \<^verbatim>\<open>await viewerCatalog.getFeed(query)\<close>.\<close>

definition feed_route ::
  "nat \<Rightarrow> thrown + 'p query_result \<Rightarrow> (thrown + 'p http_reply) \<times> log_entry list"
where
  "feed_route FEED_CACHE_TTL_SECONDS outcome =
     (case outcome of
        Inr result \<Rightarrow>
          (Inr \<lparr>status = 200,
                headers = cache_headers FEED_CACHE_TTL_SECONDS (fromCache result),
                body = Data (content result)\<rparr>, [])
      | Inl error \<Rightarrow> quality_failure ''Catalog data quality failure on viewer feed'' error)"

text \<open>
  \<^verbatim>\<open>GET /series/:slug\<close>, after \<^verbatim>\<open>await viewerCatalog.getSeriesDetail({ slug })\<close>;
  \<^verbatim>\<open>!result\<close> holds for the \<^verbatim>\<open>null\<close> sentinel.
\<close>

definition series_detail_route ::
  "nat \<Rightarrow> thrown + 'p query_result option \<Rightarrow> (thrown + 'p http_reply) \<times> log_entry list"
where
  "series_detail_route SERIES_CACHE_TTL_SECONDS outcome =
     (case outcome of
        Inr None \<Rightarrow>
          (Inr \<lparr>status = 404, headers = [], body = MessageBody ''Series not found''\<rparr>, [])
      | Inr (Some result) \<Rightarrow>
          (Inr \<lparr>status = 200,
                headers = cache_headers SERIES_CACHE_TTL_SECONDS (fromCache result),
                body = Data (content result)\<rparr>, [])
      | Inl error \<Rightarrow> quality_failure ''Catalog data quality failure on series detail'' error)"

text \<open>
  \<^verbatim>\<open>GET /series/:slug/related\<close>, after
  \<^verbatim>\<open>await viewerCatalog.getRelatedSeries({ slug, limit })\<close>.
\<close>

definition related_series_route ::
  "nat \<Rightarrow> thrown + 'p query_result option \<Rightarrow> (thrown + 'p http_reply) \<times> log_entry list"
where
  "related_series_route RELATED_CACHE_TTL_SECONDS outcome =
     (case outcome of
        Inr None \<Rightarrow>
          (Inr \<lparr>status = 404, headers = [], body = MessageBody ''Series not found''\<rparr>, [])
      | Inr (Some result) \<Rightarrow>
          (Inr \<lparr>status = 200,
                headers = cache_headers RELATED_CACHE_TTL_SECONDS (fromCache result),
                body = Data (content result)\<rparr>, [])
      | Inl error \<Rightarrow> quality_failure ''Catalog data quality failure on related series'' error)"

text \<open>
  \<^verbatim>\<open>GET /categories\<close>, after \<^verbatim>\<open>await viewerCatalog.listCategories(query)\<close>. The
  handler has no \<^verbatim>\<open>catch\<close> block and sets no \<^verbatim>\<open>x-cache\<close> header; it returns the
  result as it is.
\<close>

definition categories_route ::
  "nat \<Rightarrow> thrown + 'p \<Rightarrow> (thrown + 'p http_reply) \<times> log_entry list"
where
  "categories_route FEED_CACHE_TTL_SECONDS outcome =
     (case outcome of
        Inr result \<Rightarrow>
          (Inr \<lparr>status = 200,
                headers = [(''cache-control'', ''public, max-age='' @ digits_of FEED_CACHE_TTL_SECONDS)],
                body = Data result\<rparr>, [])
      | Inl error \<Rightarrow> (Inl error, []))"

subsection \<open>Internal routes\<close>

text \<open>
  \<^verbatim>\<open>GET /catalog/categories/:id\<close>, after \<^verbatim>\<open>await catalog.getCategoryById(id)\<close>.
  The handler throws errors of \<^verbatim>\<open>fastify.httpErrors\<close>: \<^verbatim>\<open>notFound\<close> is 404,
  \<^verbatim>\<open>internalServerError\<close> is 500.
\<close>

definition category_route ::
  "thrown + 'p \<Rightarrow> (thrown + 'p http_reply) \<times> log_entry list"
where
  "category_route outcome =
     (case outcome of
        Inr category \<Rightarrow> (Inr \<lparr>status = 200, headers = [], body = Data category\<rparr>, [])
      | Inl error \<Rightarrow>
          (case error of
             CatalogServiceError code msg \<Rightarrow>
               if code = ''NOT_FOUND'' then (Inl (HttpError 404 ''Category not found''), [])
               else (Inl (HttpError 500 ''Unable to fetch category''),
                     [LogError [Err error] ''Failed to fetch category''])
           | _ \<Rightarrow>
               (Inl (HttpError 500 ''Unable to fetch category''),
                [LogError [Err error] ''Failed to fetch category''])))"

text \<open>
  \<^verbatim>\<open>POST /catalog/episodes/:id/assets\<close>, after
  \<^verbatim>\<open>await catalog.registerEpisodeAsset(systemActorId, ...)\<close>.
\<close>

definition episode_assets_route ::
  "string \<Rightarrow> thrown + 'p \<Rightarrow> (thrown + 'p http_reply) \<times> log_entry list"
where
  "episode_assets_route episode outcome =
     (case outcome of
        Inr result \<Rightarrow> (Inr \<lparr>status = 200, headers = [], body = Data result\<rparr>, [])
      | Inl error \<Rightarrow>
          (let failed =
             (Inr \<lparr>status = 500, headers = [],
                   body = MessageBody ''Unable to register episode asset''\<rparr>,
              [LogError [Err error, EpisodeId episode]
                 ''Failed to register episode asset via internal route''])
           in case error of
                CatalogServiceError code msg \<Rightarrow>
                  if code = ''NOT_FOUND'' then
                    (Inr \<lparr>status = 404, headers = [], body = MessageBody msg\<rparr>, [])
                  else if code = ''FAILED_PRECONDITION'' then
                    (Inr \<lparr>status = 412, headers = [], body = MessageBody msg\<rparr>, [])
                  else failed
              | _ \<Rightarrow> failed))"

text \<open>
  \<^verbatim>\<open>POST /events/media-processed\<close>, after the same
  \<^verbatim>\<open>await catalog.registerEpisodeAsset(systemActorId, ...)\<close>.
\<close>

definition media_processed_route ::
  "string \<Rightarrow> thrown + 'r \<Rightarrow> (thrown + 'p http_reply) \<times> log_entry list"
where
  "media_processed_route episode outcome =
     (case outcome of
        Inr result \<Rightarrow> (Inr \<lparr>status = 202, headers = [], body = AcceptedBody\<rparr>, [])
      | Inl error \<Rightarrow>
          (let failed =
             (Inr \<lparr>status = 500, headers = [],
                   body = MessageBody ''Unable to apply media processed event''\<rparr>,
              [LogError [Err error, EpisodeId episode] ''Failed to process media event''])
           in case error of
                CatalogServiceError code msg \<Rightarrow>
                  if code = ''NOT_FOUND'' then
                    (Inr \<lparr>status = 404, headers = [], body = MessageBody msg\<rparr>, [])
                  else if code = ''FAILED_PRECONDITION'' then
                    (Inr \<lparr>status = 412, headers = [], body = MessageBody msg\<rparr>, [])
                  else failed
              | _ \<Rightarrow> failed))"

section \<open>Trending aggregator\<close>

text \<open>
  The routes construct a \<^verbatim>\<open>TrendingService\<close> over the store with the keys of the
  ranked set and of the ratings table, and the metrics route calls
  \<^verbatim>\<open>trendingService.applyMetrics(body.metrics)\<close>. The class itself
  (\<^verbatim>\<open>services/trending-service\<close>) and the event schema (\<^verbatim>\<open>schemas/events\<close>) are
  not among the sources.
\<close>

text \<open>
  Modelled from the spec: a metrics event of \<^verbatim>\<open>schemas/events\<close>: a content id and
  the signal deltas (views, likes, completions, and a rating value when the event carries
  one).
\<close>

record metrics_event =
  target :: string
  views :: nat
  likes :: nat
  completions :: nat
  rating :: "rat option"

text \<open>
  Modelled from the spec: the weights of the "deterministic weighted function of the
  deltas" of \<^verbatim>\<open>services/trending-service\<close>. The spec gives no values (views
  contribute a small increment, likes a larger one, a rating nudges the score), so they
  are parameters.
\<close>

record score_weights =
  viewWeight :: rat
  likeWeight :: rat
  completionWeight :: rat
  ratingWeight :: rat

definition score_delta :: "score_weights \<Rightarrow> metrics_event \<Rightarrow> rat" where
  "score_delta w e =
     viewWeight w * of_nat (views e)
     + likeWeight w * of_nat (likes e)
     + completionWeight w * of_nat (completions e)
     + (case rating e of None \<Rightarrow> 0 | Some r \<Rightarrow> ratingWeight w * r)"

text \<open>
  Modelled from the spec: the state of the aggregator in the shared store (of
  \<^verbatim>\<open>services/trending-service\<close>): a ranked set of content id and score, and a side
  table of rating aggregates (sum of rating values, count of ratings). A content id is a
  member of the ranked set at most once.
\<close>

record trending_store =
  ranked :: "(string \<times> rat) list"
  ratings :: "(string \<times> rat \<times> nat) list"

definition empty_store :: trending_store where
  "empty_store = \<lparr>ranked = [], ratings = []\<rparr>"

definition well_formed :: "trending_store \<Rightarrow> bool" where
  "well_formed st = (distinct (map fst (ranked st)) \<and> distinct (map fst (ratings st)))"

text \<open>
  Modelled from the spec: the point lookups \<^verbatim>\<open>scoreFor\<close> and \<^verbatim>\<open>ratingFor\<close> of
  \<^verbatim>\<open>services/trending-service\<close>: an absent entry resolves to score 0 and to the
  rating aggregate (0, 0).
\<close>

definition scoreFor :: "trending_store \<Rightarrow> string \<Rightarrow> rat" where
  "scoreFor st c = (case map_of (ranked st) c of None \<Rightarrow> 0 | Some s \<Rightarrow> s)"

definition ratingFor :: "trending_store \<Rightarrow> string \<Rightarrow> rat \<times> nat" where
  "ratingFor st c = (case map_of (ratings st) c of None \<Rightarrow> (0, 0) | Some a \<Rightarrow> a)"

text \<open>
  Modelled from the spec: \<^verbatim>\<open>applyMetrics\<close> of \<^verbatim>\<open>services/trending-service\<close>.
  For each event, in order, the content's score in the ranked set is incremented by the
  weighted delta (an increment of the existing score, a new member starting from 0), and
  a rating value is added to the content's rating aggregate. Nothing remembers which
  events were applied.
\<close>

definition increment_score :: "trending_store \<Rightarrow> string \<Rightarrow> rat \<Rightarrow> trending_store" where
  "increment_score st c delta =
     st\<lparr>ranked := AList.update c (scoreFor st c + delta) (ranked st)\<rparr>"

definition add_rating :: "trending_store \<Rightarrow> string \<Rightarrow> rat \<Rightarrow> trending_store" where
  "add_rating st c r =
     st\<lparr>ratings :=
          AList.update c (fst (ratingFor st c) + r, Suc (snd (ratingFor st c))) (ratings st)\<rparr>"

definition apply_event :: "score_weights \<Rightarrow> trending_store \<Rightarrow> metrics_event \<Rightarrow> trending_store" where
  "apply_event w st e =
     (let st' = increment_score st (target e) (score_delta w e)
      in case rating e of
           None \<Rightarrow> st'
         | Some r \<Rightarrow> add_rating st' (target e) r)"

definition applyMetrics ::
  "score_weights \<Rightarrow> metrics_event list \<Rightarrow> trending_store \<Rightarrow> trending_store"
where
  "applyMetrics w events st = foldl (apply_event w) st events"

text \<open>
  Modelled from the spec: \<^verbatim>\<open>topTrending(limit)\<close> of
  \<^verbatim>\<open>services/trending-service\<close>: the highest-scored content ids in descending score
  order, ties broken by content id ascending. The entries are sorted by the pair of the
  negated score and the content id, compared lexicographically (content ids compare
  character by character), and the first \<open>limit\<close> are returned. The call reads the
  store and leaves it as it is.
\<close>

definition rank_key :: "string \<times> rat \<Rightarrow> rat \<times> string" where
  "rank_key entry = (- snd entry, fst entry)"

definition topTrendingEntries :: "trending_store \<Rightarrow> nat \<Rightarrow> (string \<times> rat) list" where
  "topTrendingEntries st limit = take limit (sort_key rank_key (ranked st))"

definition topTrending :: "trending_store \<Rightarrow> nat \<Rightarrow> string list" where
  "topTrending st limit = map fst (topTrendingEntries st limit)"

section \<open>The codec reads back what it writes\<close>

subsection \<open>Integer literals\<close>

lemma is_digit_char_of: "n < 10 \<Longrightarrow> is_digit (char_of (48 + n :: nat))"
  by (simp add: is_digit_def)

lemma digit_val_char_of: "n < 10 \<Longrightarrow> digit_val (char_of (48 + n :: nat)) = n"
  by (simp add: digit_val_def)

lemma digit_val_zero: "digit_val CHR ''0'' = 0"
  by (simp add: digit_val_def)

lemma char_of_digit_not_zero:
  assumes "0 < n" and "n < 10"
  shows "char_of (48 + n :: nat) \<noteq> CHR ''0''"
proof
  assume "char_of (48 + n) = CHR ''0''"
  then have "digit_val (char_of (48 + n)) = digit_val CHR ''0''"
    by simp
  with assms show False
    by (simp add: digit_val_char_of digit_val_zero)
qed

lemma digits_of_small: "n < 10 \<Longrightarrow> digits_of n = [char_of (48 + n)]"
  by (simp add: digits_of.simps)

lemma digits_of_large:
  "\<not> n < 10 \<Longrightarrow> digits_of n = digits_of (n div 10) @ [char_of (48 + n mod 10)]"
  by (subst digits_of.simps) simp

lemma digits_of_not_Nil: "digits_of n \<noteq> []"
  by (cases "n < 10") (simp_all add: digits_of_small digits_of_large)

lemma digits_of_all_digits: "\<forall>c \<in> set (digits_of n). is_digit c"
proof (induction n rule: digits_of.induct)
  case (1 n)
  show ?case
  proof (cases "n < 10")
    case True
    then show ?thesis by (simp add: digits_of_small is_digit_char_of)
  next
    case False
    with 1 show ?thesis by (simp add: digits_of_large is_digit_char_of)
  qed
qed

lemma nat_of_digits_snoc: "nat_of_digits (ds @ [c]) = 10 * nat_of_digits ds + digit_val c"
  by (simp add: nat_of_digits_def)

lemma nat_of_digits_digits_of: "nat_of_digits (digits_of n) = n"
proof (induction n rule: digits_of.induct)
  case (1 n)
  show ?case
  proof (cases "n < 10")
    case True
    then show ?thesis by (simp add: digits_of_small nat_of_digits_def digit_val_char_of)
  next
    case False
    with 1 show ?thesis
      by (simp add: digits_of_large nat_of_digits_snoc digit_val_char_of)
  qed
qed

lemma hd_digits_of: "n \<noteq> 0 \<Longrightarrow> hd (digits_of n) \<noteq> CHR ''0''"
proof (induction n rule: digits_of.induct)
  case (1 n)
  show ?case
  proof (cases "n < 10")
    case True
    with 1(2) show ?thesis by (simp add: digits_of_small char_of_digit_not_zero)
  next
    case False
    then have "n div 10 \<noteq> 0" by simp
    with 1(1) False have "hd (digits_of (n div 10)) \<noteq> CHR ''0''" by simp
    with False show ?thesis by (simp add: digits_of_large digits_of_not_Nil)
  qed
qed

lemma length_digits_of_zero: "length (digits_of 0) = 1"
  by (simp add: digits_of_small)

lemma no_leading_zero: "\<not> (hd (digits_of n) = CHR ''0'' \<and> 1 < length (digits_of n))"
  by (cases "n = 0") (simp_all add: hd_digits_of length_digits_of_zero)

lemma takeWhile_digits:
  assumes "number_follow r"
  shows "takeWhile is_digit (digits_of n @ r) = digits_of n"
    and "dropWhile is_digit (digits_of n @ r) = r"
proof -
  have r: "takeWhile is_digit r = []" "dropWhile is_digit r = r"
    using assms by (cases r; simp add: number_follow_def)+
  show "takeWhile is_digit (digits_of n @ r) = digits_of n"
    using digits_of_all_digits [of n] r by (simp add: takeWhile_append2)
  show "dropWhile is_digit (digits_of n @ r) = r"
    using digits_of_all_digits [of n] r by (simp add: dropWhile_append2)
qed

lemma hd_digits_of_not_minus: "hd (digits_of n) \<noteq> CHR ''-''"
proof -
  have "is_digit (hd (digits_of n))"
    using digits_of_all_digits [of n] digits_of_not_Nil [of n] by (simp add: hd_in_set)
  then show ?thesis by (auto simp: is_digit_def)
qed

lemma parse_number_number_to_string:
  assumes "number_follow r"
  shows "parse_number (number_to_string i @ r) = Some (i, r)"
proof (cases "i < 0")
  case True
  then have "number_to_string i @ r = CHR ''-'' # digits_of (nat (- i)) @ r"
    by (simp add: number_to_string_def)
  moreover have "\<not> (r \<noteq> [] \<and> (hd r = CHR ''.'' \<or> hd r = CHR ''e'' \<or> hd r = CHR ''E''))"
    using assms by (auto simp: number_follow_def)
  ultimately show ?thesis
    using True takeWhile_digits [OF assms, of "nat (- i)"] no_leading_zero [of "nat (- i)"]
    by (simp add: parse_number_def Let_def digits_of_not_Nil nat_of_digits_digits_of)
next
  case False
  then have s: "number_to_string i @ r = digits_of (nat i) @ r"
    by (simp add: number_to_string_def)
  have h: "hd (digits_of (nat i) @ r) \<noteq> CHR ''-''"
    using hd_digits_of_not_minus [of "nat i"] by (simp add: digits_of_not_Nil)
  have "\<not> (r \<noteq> [] \<and> (hd r = CHR ''.'' \<or> hd r = CHR ''e'' \<or> hd r = CHR ''E''))"
    using assms by (auto simp: number_follow_def)
  then show ?thesis
    using False h takeWhile_digits [OF assms, of "nat i"] no_leading_zero [of "nat i"]
    by (simp add: s parse_number_def Let_def digits_of_not_Nil nat_of_digits_digits_of)
qed

subsection \<open>String literals\<close>

lemma hex_val_hex_digit: "k < 16 \<Longrightarrow> hex_val (hex_digit k) = Some k"
  by (simp add: hex_val_def hex_digit_def Let_def)

lemma hex_val_zero: "hex_val CHR ''0'' = Some 0"
  by (simp add: hex_val_def)

lemma unicode_escape_control:
  assumes "(of_char c :: nat) < 32"
  shows "unicode_escape CHR ''0'' CHR ''0''
           (hex_digit ((of_char c :: nat) div 16)) (hex_digit ((of_char c :: nat) mod 16))
         = Some c"
proof -
  have "(of_char c :: nat) div 16 < 16"
    using assms by simp
  moreover have "(of_char c :: nat) mod 16 < 16"
    by simp
  moreover have "char_of (16 * ((of_char c :: nat) div 16) + (of_char c :: nat) mod 16) = c"
    by simp
  ultimately show ?thesis
    by (simp add: unicode_escape_def hex_val_hex_digit hex_val_zero del: mult_div_mod_eq)
qed

lemma parse_chars_quote_char:
  "parse_chars (quote_char c @ rest) = map_option (apfst ((#) c)) (parse_chars rest)"
proof -
  consider "c = DQUOTE" | "c = BACKSLASH" | "c = CHR 0x08" | "c = CHR 0x0C" | "c = CHR 0x0A"
    | "c = CHR 0x0D" | "c = CHR 0x09"
    | "c \<noteq> DQUOTE" "c \<noteq> BACKSLASH" "c \<noteq> CHR 0x08" "c \<noteq> CHR 0x0C" "c \<noteq> CHR 0x0A"
      "c \<noteq> CHR 0x0D" "c \<noteq> CHR 0x09" "(of_char c :: nat) < 32"
    | "c \<noteq> DQUOTE" "c \<noteq> BACKSLASH" "\<not> (of_char c :: nat) < 32"
    by (cases "(of_char c :: nat) < 32") auto
  then show ?thesis
  proof cases
    case 8
    then show ?thesis
      by (simp add: quote_char_def unicode_escape_control)
  next
    case 9
    then have "quote_char c = [c]"
      by (auto simp: quote_char_def)
    with 9 show ?thesis
      by simp
  qed (simp_all add: quote_char_def simple_escape_def)
qed

lemma parse_chars_quoted:
  "parse_chars (concat (map quote_char s) @ DQUOTE # r) = Some (s, r)"
  by (induction s) (simp_all add: parse_chars_quote_char)

lemma parse_chars_quote_string:
  "parse_chars (tl (quote_string s) @ r) = Some (s, r)"
  by (simp add: quote_string_def parse_chars_quoted)

lemma quote_string_Cons: "quote_string s = DQUOTE # tl (quote_string s)"
  by (simp add: quote_string_def)

subsection \<open>Values\<close>

lemma value_start_not_ws: "value_start c \<Longrightarrow> \<not> is_ws c"
  by (auto simp: value_start_def is_ws_def is_digit_def)

lemma value_start_not_close:
  "value_start c \<Longrightarrow> c \<noteq> CHR '']'' \<and> c \<noteq> CHR ''}'' \<and> c \<noteq> CHR '',''"
  by (auto simp: value_start_def is_digit_def)

lemma skip_ws_Cons: "\<not> is_ws c \<Longrightarrow> skip_ws (c # s) = c # s"
  by (simp add: skip_ws_def)

lemma skip_ws_Nil: "skip_ws [] = []"
  by (simp add: skip_ws_def)

lemma number_to_string_start: "\<exists>c cs. number_to_string i = c # cs \<and> (c = CHR ''-'' \<or> is_digit c)"
proof (cases "i < 0")
  case True
  then show ?thesis by (simp add: number_to_string_def)
next
  case False
  obtain c cs where d: "digits_of (nat i) = c # cs"
    using digits_of_not_Nil [of "nat i"] by (cases "digits_of (nat i)") auto
  then have "is_digit c"
    using digits_of_all_digits [of "nat i"] by simp
  with False d show ?thesis by (simp add: number_to_string_def)
qed

lemma fragment_stringify_start: "\<exists>c cs. fragment_stringify v = c # cs \<and> value_start c"
proof (cases v)
  case (JNum i)
  then show ?thesis
    using number_to_string_start [of i] by (auto simp: value_start_def)
qed (auto simp: value_start_def quote_string_def)

lemma fragment_stringify_not_Nil: "fragment_stringify v \<noteq> []"
  using fragment_stringify_start [of v] by auto

lemma number_follow_simps:
  "number_follow []" "number_follow (CHR '','' # r)" "number_follow (CHR '']'' # r)"
  "number_follow (CHR ''}'' # r)"
  by (simp_all add: number_follow_def is_digit_def)

lemma parse_value_number:
  assumes "c = CHR ''-'' \<or> is_digit c"
  shows "parse_value (Suc n) (c # s) = map_option (apfst JNum) (parse_number (c # s))"
proof -
  from assms have "c \<noteq> CHR ''n''" "c \<noteq> CHR ''t''" "c \<noteq> CHR ''f''" "c \<noteq> DQUOTE"
    "c \<noteq> CHR ''[''" "c \<noteq> CHR ''{''"
    by (auto simp: is_digit_def)
  then show ?thesis by simp
qed

lemma join_with_Cons:
  "ss \<noteq> [] \<Longrightarrow> join_with sep (s # ss) = s @ sep @ join_with sep ss"
  by (cases ss) simp_all

lemma skip_ws_value_start: "value_start c \<Longrightarrow> skip_ws (c # s) = c # s"
  by (simp add: skip_ws_Cons value_start_not_ws)

lemma skip_ws_separator:
  "skip_ws (CHR '','' # r) = CHR '','' # r" "skip_ws (CHR '']'' # r) = CHR '']'' # r"
  "skip_ws (CHR ''}'' # r) = CHR ''}'' # r" "skip_ws (CHR '':'' # r) = CHR '':'' # r"
  by (simp_all add: skip_ws_def is_ws_def)

lemma parse_elements_last:
  assumes "parse_value n (c # s) = Some (v, CHR '']'' # r)" and "value_start c"
  shows "parse_elements (Suc n) (c # s) = Some ([v], r)"
  using assms
  by (simp add: skip_ws_value_start skip_ws_separator)

lemma parse_elements_more:
  assumes "parse_value n (c # s) = Some (v, CHR '','' # r)" and "value_start c"
  shows "parse_elements (Suc n) (c # s) = map_option (apfst ((#) v)) (parse_elements n r)"
  using assms
  by (simp add: skip_ws_value_start skip_ws_separator)

lemma parse_members_last:
  assumes "parse_chars s = Some (k, CHR '':'' # c # s')"
    and "value_start c"
    and "parse_value n (c # s') = Some (v, CHR ''}'' # r)"
  shows "parse_members (Suc n) (DQUOTE # s) = Some ([(k, v)], r)"
  using assms
  by (simp add: skip_ws_value_start skip_ws_separator skip_ws_def [of "DQUOTE # s"] is_ws_def)

lemma parse_members_more:
  assumes "parse_chars s = Some (k, CHR '':'' # c # s')"
    and "value_start c"
    and "parse_value n (c # s') = Some (v, CHR '','' # r)"
  shows "parse_members (Suc n) (DQUOTE # s)
     = map_option (apfst ((#) (k, v))) (parse_members n r)"
  using assms
  by (simp add: skip_ws_value_start skip_ws_separator skip_ws_def [of "DQUOTE # s"] is_ws_def)

lemma fragment_stringify_JObj:
  "fragment_stringify (JObj kvs) = CHR ''{'' # join_with '','' (map member_string kvs) @ ''}''"
  by (simp add: member_string_def [abs_def] case_prod_unfold comp_def)

lemma join_with_start:
  assumes "ss \<noteq> []" and "hd ss \<noteq> []"
  shows "\<exists>cs. join_with sep ss = hd (hd ss) # cs"
proof (cases ss)
  case Nil
  with assms show ?thesis by simp
next
  case (Cons s ss')
  with assms obtain c cs where "s = c # cs"
    by (cases s) auto
  with Cons show ?thesis
    by (cases ss') simp_all
qed

lemma parse_elements_join:
  assumes "xs \<noteq> []"
    and "\<And>x n r. x \<in> set xs \<Longrightarrow> size x < n \<Longrightarrow> number_follow r
           \<Longrightarrow> parse_value n (fragment_stringify x @ r) = Some (x, r)"
    and "size_list size xs < n"
  shows "parse_elements n (join_with '','' (map fragment_stringify xs) @ CHR '']'' # r) = Some (xs, r)"
  using assms
proof (induction xs arbitrary: n rule: list_nonempty_induct)
  case (single x)
  from single(2) obtain m where n: "n = Suc m" and m: "size x < m"
    by (cases n) auto
  obtain c cs where s: "fragment_stringify x = c # cs" and c: "value_start c"
    using fragment_stringify_start [of x] by auto
  have "parse_value m (fragment_stringify x @ CHR '']'' # r) = Some (x, CHR '']'' # r)"
    using single(1) [of x m "CHR '']'' # r"] m by (simp add: number_follow_simps)
  then have "parse_elements (Suc m) (c # cs @ CHR '']'' # r) = Some ([x], r)"
    using c by (intro parse_elements_last) (simp_all add: s)
  then show ?case
    by (simp add: n s)
next
  case (cons x xs)
  from cons(4) obtain m where n: "n = Suc m" and m: "size x < m" and ms: "size_list size xs < m"
    by (cases n) auto
  obtain c cs where s: "fragment_stringify x = c # cs" and c: "value_start c"
    using fragment_stringify_start [of x] by auto
  let ?rest = "join_with '','' (map fragment_stringify xs) @ CHR '']'' # r"
  have "parse_value m (fragment_stringify x @ CHR '','' # ?rest) = Some (x, CHR '','' # ?rest)"
    using cons(3) [of x m "CHR '','' # ?rest"] m by (simp add: number_follow_simps)
  then have "parse_elements (Suc m) (c # cs @ CHR '','' # ?rest)
      = map_option (apfst ((#) x)) (parse_elements m ?rest)"
    using c by (intro parse_elements_more) (simp_all add: s)
  moreover have "parse_elements m ?rest = Some (xs, r)"
    using cons(3) ms by (intro cons(2)) simp_all
  ultimately show ?case
    using cons(1) by (simp add: n s join_with_Cons)
qed

lemma parse_members_join:
  assumes "kvs \<noteq> []"
    and "\<And>k v n r. (k, v) \<in> set kvs \<Longrightarrow> size v < n \<Longrightarrow> number_follow r
           \<Longrightarrow> parse_value n (fragment_stringify v @ r) = Some (v, r)"
    and "size_list (size_prod (\<lambda>k. 0) size) kvs < n"
  shows "parse_members n (join_with '','' (map member_string kvs) @ CHR ''}'' # r) = Some (kvs, r)"
  using assms
proof (induction kvs arbitrary: n rule: list_nonempty_induct)
  case (single kv)
  obtain k v where kv: "kv = (k, v)" by (cases kv)
  from single(2) obtain m where n: "n = Suc m" and m: "size v < m"
    by (cases n) (auto simp: kv)
  obtain c cs where s: "fragment_stringify v = c # cs" and c: "value_start c"
    using fragment_stringify_start [of v] by auto
  have key: "parse_chars (tl (quote_string k) @ CHR '':'' # c # cs @ CHR ''}'' # r)
      = Some (k, CHR '':'' # c # cs @ CHR ''}'' # r)"
    by (rule parse_chars_quote_string)
  have "parse_value m (fragment_stringify v @ CHR ''}'' # r) = Some (v, CHR ''}'' # r)"
    using single(1) [of k v m "CHR ''}'' # r"] m by (simp add: kv number_follow_simps)
  then have "parse_value m (c # cs @ CHR ''}'' # r) = Some (v, CHR ''}'' # r)"
    by (simp add: s)
  with key c have "parse_members (Suc m)
      (DQUOTE # tl (quote_string k) @ CHR '':'' # c # cs @ CHR ''}'' # r) = Some ([(k, v)], r)"
    by (rule parse_members_last)
  then show ?case
    by (simp add: n kv member_string_def s quote_string_def)
next
  case (cons kv kvs)
  obtain k v where kv: "kv = (k, v)" by (cases kv)
  from cons(4) obtain m where n: "n = Suc m" and m: "size v < m"
    and ms: "size_list (size_prod (\<lambda>k. 0) size) kvs < m"
    by (cases n) (auto simp: kv)
  obtain c cs where s: "fragment_stringify v = c # cs" and c: "value_start c"
    using fragment_stringify_start [of v] by auto
  let ?rest = "join_with '','' (map member_string kvs) @ CHR ''}'' # r"
  have key: "parse_chars (tl (quote_string k) @ CHR '':'' # c # cs @ CHR '','' # ?rest)
      = Some (k, CHR '':'' # c # cs @ CHR '','' # ?rest)"
    by (rule parse_chars_quote_string)
  have "parse_value m (fragment_stringify v @ CHR '','' # ?rest) = Some (v, CHR '','' # ?rest)"
    using cons(3) [of k v m "CHR '','' # ?rest"] m by (simp add: kv number_follow_simps)
  then have "parse_value m (c # cs @ CHR '','' # ?rest) = Some (v, CHR '','' # ?rest)"
    by (simp add: s)
  with key c have step: "parse_members (Suc m)
      (DQUOTE # tl (quote_string k) @ CHR '':'' # c # cs @ CHR '','' # ?rest)
      = map_option (apfst ((#) (k, v))) (parse_members m ?rest)"
    by (rule parse_members_more)
  have rest: "parse_members m ?rest = Some (kvs, r)"
  proof (rule cons(2) [OF _ ms])
    fix k' v' n' r'
    assume "(k', v') \<in> set kvs" and "size v' < n'" and "number_follow r'"
    then show "parse_value n' (fragment_stringify v' @ r') = Some (v', r')"
      using cons(3) [of k' v' n' r'] by simp
  qed
  have shape: "join_with '','' (map member_string (kv # kvs)) @ CHR ''}'' # r
      = DQUOTE # tl (quote_string k) @ CHR '':'' # c # cs @ CHR '','' # ?rest"
    using cons(1) by (simp add: kv join_with_Cons member_string_def [of "(k, v)"] s quote_string_def)
  show ?case
    unfolding n shape by (simp only: step rest option.map apfst_conv kv)
qed

lemma parse_value_stringify:
  "size v < n \<Longrightarrow> number_follow r \<Longrightarrow> parse_value n (fragment_stringify v @ r) = Some (v, r)"
proof (induction v arbitrary: n r)
  case JNull
  then show ?case by (cases n) simp_all
next
  case (JBool b)
  then show ?case by (cases n) simp_all
next
  case (JNum i)
  then obtain m where n: "n = Suc m" by (cases n) auto
  obtain c cs where s: "number_to_string i = c # cs" and c: "c = CHR ''-'' \<or> is_digit c"
    using number_to_string_start [of i] by auto
  have "parse_number (number_to_string i @ r) = Some (i, r)"
    using JNum(2) by (rule parse_number_number_to_string)
  then have "parse_number (c # cs @ r) = Some (i, r)"
    by (simp add: s)
  with parse_value_number [OF c, of m "cs @ r"] show ?case
    by (simp add: n s)
next
  case (JStr s)
  then obtain m where n: "n = Suc m" by (cases n) auto
  have "parse_chars (tl (quote_string s) @ r) = Some (s, r)"
    by (rule parse_chars_quote_string)
  then show ?case
    by (simp add: n quote_string_def)
next
  case (JArr xs)
  from JArr(2) obtain m where n: "n = Suc m" and m: "size_list size xs < m"
    by (cases n) auto
  show ?case
  proof (cases "xs = []")
    case True
    then show ?thesis by (simp add: n skip_ws_separator)
  next
    case False
    let ?body = "join_with '','' (map fragment_stringify xs)"
    have "hd (map fragment_stringify xs) \<noteq> []"
      using False by (simp add: hd_map fragment_stringify_not_Nil)
    then obtain cs where b: "?body = hd (hd (map fragment_stringify xs)) # cs"
      using join_with_start [of "map fragment_stringify xs" "'',''"] False by auto
    have c: "value_start (hd (hd (map fragment_stringify xs)))"
      using False fragment_stringify_start [of "hd xs"] by (auto simp: hd_map)
    have "parse_elements m (?body @ CHR '']'' # r) = Some (xs, r)"
      using False JArr(1) m by (intro parse_elements_join) simp_all
    then show ?thesis
      using c value_start_not_close [OF c]
      by (simp add: n b skip_ws_value_start)
  qed
next
  case (JObj kvs)
  from JObj(2) obtain m where n: "n = Suc m"
    and m: "size_list (size_prod (\<lambda>k. 0) size) kvs < m"
    by (cases n) auto
  show ?case
  proof (cases "kvs = []")
    case True
    then show ?thesis by (simp add: n skip_ws_separator)
  next
    case False
    let ?body = "join_with '','' (map member_string kvs)"
    have "hd (map member_string kvs) \<noteq> []"
      using False by (simp add: hd_map member_string_def quote_string_def)
    then obtain cs where b: "?body = hd (hd (map member_string kvs)) # cs"
      using join_with_start [of "map member_string kvs" "'',''"] False by auto
    have c: "hd (hd (map member_string kvs)) = DQUOTE"
      using False by (simp add: hd_map member_string_def quote_string_def)
    have "parse_members m (?body @ CHR ''}'' # r) = Some (kvs, r)"
    proof (rule parse_members_join [OF False _ m])
      fix k v n r
      assume "(k, v) \<in> set kvs" and "size v < n" and "number_follow r"
      then show "parse_value n (fragment_stringify v @ r) = Some (v, r)"
        using JObj(1) [of "(k, v)" v n r] by simp
    qed
    then show ?thesis
      unfolding fragment_stringify_JObj
      by (simp add: n b c skip_ws_def is_ws_def)
  qed
qed

subsection \<open>The bound of the parser\<close>

text \<open>
  A parse that succeeds within some bound succeeds within every larger one, and within
  the number of characters it consumes; so \<open>fragment_parse\<close>, which supplies
  \<open>Suc (length text)\<close>, answers as the parser with no bound would.
\<close>

lemma parse_value_array:
  "parse_value (Suc n) (CHR ''['' # r)
     = (case skip_ws r of
          [] \<Rightarrow> None
        | c' # r' \<Rightarrow>
            if c' = CHR '']'' then Some (JArr [], r')
            else map_option (apfst JArr) (parse_elements n (c' # r')))"
  by simp

lemma parse_value_object:
  "parse_value (Suc n) (CHR ''{'' # r)
     = (case skip_ws r of
          [] \<Rightarrow> None
        | c' # r' \<Rightarrow>
            if c' = CHR ''}'' then Some (JObj [], r')
            else map_option (apfst JObj) (parse_members n (c' # r')))"
  by simp

lemma parse_value_atom:
  assumes "c \<noteq> CHR ''[''" and "c \<noteq> CHR ''{''"
  shows "parse_value (Suc n) (c # r) = parse_value (Suc 0) (c # r)"
  using assms by simp

lemma parse_value_Nil: "parse_value n [] = None"
  by (cases n) simp_all

lemma parse_fuel_Suc:
  "(\<forall>s x. parse_value n s = Some x \<longrightarrow> parse_value (Suc n) s = Some x)
   \<and> (\<forall>s x. parse_elements n s = Some x \<longrightarrow> parse_elements (Suc n) s = Some x)
   \<and> (\<forall>s x. parse_members n s = Some x \<longrightarrow> parse_members (Suc n) s = Some x)"
proof (induction n)
  case 0
  show ?case by simp
next
  case (Suc n)
  then have Hv: "\<And>s x. parse_value n s = Some x \<Longrightarrow> parse_value (Suc n) s = Some x"
    and He: "\<And>s x. parse_elements n s = Some x \<Longrightarrow> parse_elements (Suc n) s = Some x"
    and Hm: "\<And>s x. parse_members n s = Some x \<Longrightarrow> parse_members (Suc n) s = Some x"
    by blast+
  have v: "parse_value (Suc (Suc n)) s = Some x" if a: "parse_value (Suc n) s = Some x" for s x
  proof (cases s)
    case Nil
    with a show ?thesis by simp
  next
    case (Cons c r)
    consider "c = CHR ''[''" | "c = CHR ''{''" | "c \<noteq> CHR ''[''" "c \<noteq> CHR ''{''"
      by blast
    then show ?thesis
    proof cases
      case 1
      with a Cons show ?thesis
        unfolding Cons 1 parse_value_array
        by (auto split: list.splits if_splits dest: He)
    next
      case 2
      with a Cons show ?thesis
        unfolding Cons 2 parse_value_object
        by (auto split: list.splits if_splits dest: Hm)
    next
      case 3
      have "parse_value (Suc (Suc n)) (c # r) = parse_value (Suc n) (c # r)"
        using parse_value_atom [OF 3, of "Suc n" r] parse_value_atom [OF 3, of n r]
        by (simp only:)
      then show ?thesis
        using a unfolding Cons by (simp only:)
    qed
  qed
  have e: "parse_elements (Suc (Suc n)) s = Some x" if a: "parse_elements (Suc n) s = Some x" for s x
  proof -
    from a obtain w r where w: "parse_value n (skip_ws s) = Some (w, r)"
      by (auto split: option.splits)
    then have w': "parse_value (Suc n) (skip_ws s) = Some (w, r)"
      by (rule Hv)
    from a show ?thesis
      by (auto simp add: w w' simp del: parse_value.simps split: list.splits if_splits dest: He)
  qed
  have m: "parse_members (Suc (Suc n)) s = Some x" if a: "parse_members (Suc n) s = Some x" for s x
  proof -
    from a obtain c r where s: "skip_ws s = c # r" and c: "c = DQUOTE"
      by (auto split: list.splits if_splits)
    from a s c obtain k r1 where k: "parse_chars r = Some (k, r1)"
      by (auto split: option.splits)
    from a s c k obtain r2 where r2: "skip_ws r1 = CHR '':'' # r2"
      by (auto split: list.splits if_splits)
    from a s c k r2 obtain w r3 where w: "parse_value n (skip_ws r2) = Some (w, r3)"
      by (auto split: option.splits)
    then have w': "parse_value (Suc n) (skip_ws r2) = Some (w, r3)"
      by (rule Hv)
    from a show ?thesis
      by (auto simp add: s c k r2 w w' simp del: parse_value.simps
          split: list.splits if_splits dest: Hm)
  qed
  from v e m show ?case by blast
qed

lemma parse_value_fuel_mono:
  assumes "parse_value n s = Some x" and "n \<le> m"
  shows "parse_value m s = Some x"
  using assms(2,1)
proof (induction rule: dec_induct)
  case base
  then show ?case .
next
  case (step k)
  then show ?case
    using parse_fuel_Suc [of k] by blast
qed

lemma parse_elements_fuel_mono:
  assumes "parse_elements n s = Some x" and "n \<le> m"
  shows "parse_elements m s = Some x"
  using assms(2,1)
proof (induction rule: dec_induct)
  case base
  then show ?case .
next
  case (step k)
  then show ?case
    using parse_fuel_Suc [of k] by blast
qed

lemma parse_members_fuel_mono:
  assumes "parse_members n s = Some x" and "n \<le> m"
  shows "parse_members m s = Some x"
  using assms(2,1)
proof (induction rule: dec_induct)
  case base
  then show ?case .
next
  case (step k)
  then show ?case
    using parse_fuel_Suc [of k] by blast
qed

lemma length_skip_ws: "length (skip_ws s) \<le> length s"
  by (simp add: skip_ws_def length_dropWhile_le)

lemma skip_ws_ConsD: "skip_ws s = c # r \<Longrightarrow> Suc (length r) \<le> length s"
  using length_skip_ws [of s] by simp

lemma parse_chars_consumes: "parse_chars s = Some (k, r) \<Longrightarrow> length r < length s"
proof (induction s arbitrary: k r rule: parse_chars.induct)
  case 1
  then show ?case by simp
next
  case (2 c s)
  show ?case
  proof (cases "c = DQUOTE")
    case True
    with 2(4) show ?thesis by simp
  next
    case q: False
    show ?thesis
    proof (cases "c = BACKSLASH")
      case True
      with 2(4) obtain e s' where s: "s = e # s'"
        by (cases s) auto
      show ?thesis
      proof (cases "e = CHR ''u''")
        case u: True
        with 2(4) True s obtain h1 h2 h3 h4 s'' where s': "s' = h1 # h2 # h3 # h4 # s''"
          by (auto split: list.splits)
        with 2(4) True s u obtain ch k' where "unicode_escape h1 h2 h3 h4 = Some ch"
          and "parse_chars s'' = Some (k', r)"
          by (auto split: option.splits)
        with 2(1) [OF q True s u s'] have "length r < length s''"
          by simp
        then show ?thesis by (simp add: s s')
      next
        case u: False
        with 2(4) True s obtain ch k' where "simple_escape e = Some ch"
          and "parse_chars s' = Some (k', r)"
          by (auto split: option.splits)
        with 2(2) [OF q True s u] have "length r < length s'"
          by simp
        then show ?thesis by (simp add: s)
      qed
    next
      case False
      with 2(4) q obtain k' where "\<not> (of_char c :: nat) < 32" and "parse_chars s = Some (k', r)"
        by (auto split: if_splits)
      with 2(3) [OF q False] have "length r < length s"
        by simp
      then show ?thesis by simp
    qed
  qed
qed

lemma parse_number_consumes:
  assumes "parse_number s = Some (i, r)"
  shows "length r < length s"
proof -
  define s1 where "s1 = (if s \<noteq> [] \<and> hd s = CHR ''-'' then tl s else s)"
  from assms have ds: "takeWhile is_digit s1 \<noteq> []" and r: "r = dropWhile is_digit s1"
    by (auto simp: parse_number_def Let_def s1_def split: if_splits)
  have "length (takeWhile is_digit s1) + length (dropWhile is_digit s1) = length s1"
    by (metis length_append takeWhile_dropWhile_id)
  with ds have "length r < length s1"
    by (cases "takeWhile is_digit s1") (auto simp: r)
  moreover have "length s1 \<le> length s"
    by (simp add: s1_def)
  ultimately show ?thesis by simp
qed

lemma parse_value_atom_consumes:
  assumes "c \<noteq> CHR ''[''" and "c \<noteq> CHR ''{''"
    and "parse_value (Suc 0) (c # s) = Some (v, r)"
  shows "length r < length (c # s)"
proof -
  consider "c = CHR ''n''" | "c = CHR ''t''" | "c = CHR ''f''" | "c = DQUOTE"
    | "c \<noteq> CHR ''n''" "c \<noteq> CHR ''t''" "c \<noteq> CHR ''f''" "c \<noteq> DQUOTE"
    by blast
  then show ?thesis
  proof cases
    case 4
    with assms obtain k where "parse_chars s = Some (k, r)"
      by auto
    then show ?thesis
      using parse_chars_consumes by fastforce
  next
    case 5
    with assms obtain i where "parse_number (c # s) = Some (i, r)"
      by auto
    then show ?thesis
      by (rule parse_number_consumes)
  qed (use assms in \<open>auto split: if_splits\<close>)
qed

lemma parse_fuel_enough:
  "(\<forall>s v r. parse_value n s = Some (v, r) \<longrightarrow>
      length r < length s \<and> (\<forall>k. length s - length r \<le> k \<longrightarrow> parse_value k s = Some (v, r)))
   \<and> (\<forall>s vs r. parse_elements n s = Some (vs, r) \<longrightarrow>
      length r < length s \<and> (\<forall>k. length s - length r \<le> k \<longrightarrow> parse_elements k s = Some (vs, r)))
   \<and> (\<forall>s kvs r. parse_members n s = Some (kvs, r) \<longrightarrow>
      length r < length s \<and> (\<forall>k. length s - length r \<le> k \<longrightarrow> parse_members k s = Some (kvs, r)))"
proof (induction n)
  case 0
  show ?case by simp
next
  case (Suc n)
  then have Hv: "\<And>s v r. parse_value n s = Some (v, r) \<Longrightarrow>
      length r < length s \<and> (\<forall>k. length s - length r \<le> k \<longrightarrow> parse_value k s = Some (v, r))"
    and He: "\<And>s vs r. parse_elements n s = Some (vs, r) \<Longrightarrow>
      length r < length s \<and> (\<forall>k. length s - length r \<le> k \<longrightarrow> parse_elements k s = Some (vs, r))"
    and Hm: "\<And>s kvs r. parse_members n s = Some (kvs, r) \<Longrightarrow>
      length r < length s \<and> (\<forall>k. length s - length r \<le> k \<longrightarrow> parse_members k s = Some (kvs, r))"
    by blast+
  have v: "length r < length s \<and> (\<forall>k. length s - length r \<le> k \<longrightarrow> parse_value k s = Some (v, r))"
    if a: "parse_value (Suc n) s = Some (v, r)" for s v r
  proof (cases s)
    case Nil
    with a show ?thesis by simp
  next
    case (Cons c s0)
    consider "c = CHR ''[''" | "c = CHR ''{''" | "c \<noteq> CHR ''[''" "c \<noteq> CHR ''{''"
      by blast
    then show ?thesis
    proof cases
      case 1
      from a obtain c' r' where w: "skip_ws s0 = c' # r'"
        unfolding Cons 1 parse_value_array by (auto split: list.splits)
      note len = skip_ws_ConsD [OF w]
      show ?thesis
      proof (cases "c' = CHR '']''")
        case True
        with a w have r: "v = JArr []" "r = r'"
          unfolding Cons 1 parse_value_array by auto
        have "parse_value k s = Some (v, r)" if "length s - length r \<le> k" for k
        proof -
          from that len obtain k' where "k = Suc k'"
            by (cases k) (auto simp: Cons r)
          then show ?thesis
            unfolding Cons 1 by (simp add: parse_value_array w True r del: parse_value.simps)
        qed
        with len show ?thesis by (simp add: Cons r)
      next
        case False
        with a w obtain xs where e: "parse_elements n (c' # r') = Some (xs, r)" and x: "v = JArr xs"
          unfolding Cons 1 parse_value_array by auto
        note ih = He [OF e]
        have "parse_value k s = Some (v, r)" if "length s - length r \<le> k" for k
        proof -
          from that len ih obtain k' where k: "k = Suc k'" and "length (c' # r') - length r \<le> k'"
            by (cases k) (auto simp: Cons)
          with ih have "parse_elements k' (c' # r') = Some (xs, r)"
            by blast
          then show ?thesis
            unfolding Cons 1 k by (simp add: parse_value_array w False x del: parse_value.simps)
        qed
        with len ih show ?thesis by (simp add: Cons)
      qed
    next
      case 2
      from a obtain c' r' where w: "skip_ws s0 = c' # r'"
        unfolding Cons 2 parse_value_object by (auto split: list.splits)
      note len = skip_ws_ConsD [OF w]
      show ?thesis
      proof (cases "c' = CHR ''}''")
        case True
        with a w have r: "v = JObj []" "r = r'"
          unfolding Cons 2 parse_value_object by auto
        have "parse_value k s = Some (v, r)" if "length s - length r \<le> k" for k
        proof -
          from that len obtain k' where "k = Suc k'"
            by (cases k) (auto simp: Cons r)
          then show ?thesis
            unfolding Cons 2 by (simp add: parse_value_object w True r del: parse_value.simps)
        qed
        with len show ?thesis by (simp add: Cons r)
      next
        case False
        with a w obtain kvs where e: "parse_members n (c' # r') = Some (kvs, r)" and x: "v = JObj kvs"
          unfolding Cons 2 parse_value_object by auto
        note ih = Hm [OF e]
        have "parse_value k s = Some (v, r)" if "length s - length r \<le> k" for k
        proof -
          from that len ih obtain k' where k: "k = Suc k'" and "length (c' # r') - length r \<le> k'"
            by (cases k) (auto simp: Cons)
          with ih have "parse_members k' (c' # r') = Some (kvs, r)"
            by blast
          then show ?thesis
            unfolding Cons 2 k by (simp add: parse_value_object w False x del: parse_value.simps)
        qed
        with len ih show ?thesis by (simp add: Cons)
      qed
    next
      case 3
      have a0: "parse_value (Suc 0) (c # s0) = Some (v, r)"
        using a parse_value_atom [OF 3, of n s0] unfolding Cons by (simp only:)
      then have len: "length r < length (c # s0)"
        by (rule parse_value_atom_consumes [OF 3])
      have "parse_value k s = Some (v, r)" if "length s - length r \<le> k" for k
      proof -
        from that len obtain k' where "k = Suc k'"
          by (cases k) (auto simp: Cons)
        then show ?thesis
          using a0 parse_value_atom [OF 3, of k' s0] unfolding Cons by (simp only:)
      qed
      with len show ?thesis by (simp add: Cons)
    qed
  qed
  have e: "length r < length s \<and> (\<forall>k. length s - length r \<le> k \<longrightarrow> parse_elements k s = Some (vs, r))"
    if a: "parse_elements (Suc n) s = Some (vs, r)" for s vs r
  proof -
    from a obtain w r1 where w: "parse_value n (skip_ws s) = Some (w, r1)"
      by (auto split: option.splits)
    note ihv = Hv [OF w]
    note l0 = length_skip_ws [of s]
    from a w obtain c r' where sep: "skip_ws r1 = c # r'"
      by (auto simp del: parse_value.simps split: list.splits)
    note l1 = skip_ws_ConsD [OF sep]
    show ?thesis
    proof (cases "c = CHR '',''")
      case True
      with a w sep obtain xs where x: "parse_elements n r' = Some (xs, r)" and vs: "vs = w # xs"
        by (auto simp del: parse_value.simps)
      note ihe = He [OF x]
      have "parse_elements k s = Some (vs, r)" if "length s - length r \<le> k" for k
      proof -
        from that ihv ihe l0 l1 obtain k' where k: "k = Suc k'"
          and "length (skip_ws s) - length r1 \<le> k'" and "length r' - length r \<le> k'"
          by (cases k) auto
        with ihv ihe have "parse_value k' (skip_ws s) = Some (w, r1)"
          and "parse_elements k' r' = Some (xs, r)"
          by blast+
        then show ?thesis
          by (simp add: k sep True vs del: parse_value.simps)
      qed
      with ihv ihe l0 l1 show ?thesis by simp
    next
      case False
      with a w sep have c: "c = CHR '']''" and vs: "vs = [w]" "r = r'"
        by (auto simp del: parse_value.simps split: if_splits)
      have "parse_elements k s = Some (vs, r)" if "length s - length r \<le> k" for k
      proof -
        from that ihv l0 l1 obtain k' where k: "k = Suc k'"
          and "length (skip_ws s) - length r1 \<le> k'"
          by (cases k) (auto simp: vs)
        with ihv have "parse_value k' (skip_ws s) = Some (w, r1)"
          by blast
        then show ?thesis
          by (simp add: k sep c vs del: parse_value.simps)
      qed
      with ihv l0 l1 show ?thesis by (simp add: vs)
    qed
  qed
  have m: "length r < length s \<and> (\<forall>k. length s - length r \<le> k \<longrightarrow> parse_members k s = Some (kvs, r))"
    if a: "parse_members (Suc n) s = Some (kvs, r)" for s kvs r
  proof -
    from a obtain c s0 where s: "skip_ws s = c # s0" and c: "c = DQUOTE"
      by (auto split: list.splits if_splits)
    from a s c obtain key r1 where key: "parse_chars s0 = Some (key, r1)"
      by (auto split: option.splits)
    from a s c key obtain r2 where colon: "skip_ws r1 = CHR '':'' # r2"
      by (auto split: list.splits if_splits)
    from a s c key colon obtain w r3 where w: "parse_value n (skip_ws r2) = Some (w, r3)"
      by (auto simp del: parse_value.simps split: option.splits)
    from a s c key colon w obtain c3 r4 where sep: "skip_ws r3 = c3 # r4"
      by (auto simp del: parse_value.simps split: list.splits)
    note ihv = Hv [OF w]
    note l0 = skip_ws_ConsD [OF s]
    note l1 = parse_chars_consumes [OF key]
    note l2 = skip_ws_ConsD [OF colon]
    note l3 = length_skip_ws [of r2]
    note l4 = skip_ws_ConsD [OF sep]
    show ?thesis
    proof (cases "c3 = CHR '',''")
      case True
      with a s c key colon w sep obtain xs where x: "parse_members n r4 = Some (xs, r)"
        and kvs: "kvs = (key, w) # xs"
        by (auto simp del: parse_value.simps)
      note ihm = Hm [OF x]
      have "parse_members k s = Some (kvs, r)" if "length s - length r \<le> k" for k
      proof -
        from that ihv ihm l0 l1 l2 l3 l4 obtain k' where k: "k = Suc k'"
          and "length (skip_ws r2) - length r3 \<le> k'" and "length r4 - length r \<le> k'"
          by (cases k) auto
        with ihv ihm have "parse_value k' (skip_ws r2) = Some (w, r3)"
          and "parse_members k' r4 = Some (xs, r)"
          by blast+
        then show ?thesis
          by (simp add: k s c key colon sep True kvs del: parse_value.simps)
      qed
      with ihv ihm l0 l1 l2 l3 l4 show ?thesis by simp
    next
      case False
      with a s c key colon w sep have c3: "c3 = CHR ''}''" and kvs: "kvs = [(key, w)]" "r = r4"
        by (auto simp del: parse_value.simps split: if_splits)
      have "parse_members k s = Some (kvs, r)" if "length s - length r \<le> k" for k
      proof -
        from that ihv l0 l1 l2 l3 l4 obtain k' where k: "k = Suc k'"
          and "length (skip_ws r2) - length r3 \<le> k'"
          by (cases k) (auto simp: kvs)
        with ihv have "parse_value k' (skip_ws r2) = Some (w, r3)"
          by blast
        then show ?thesis
          by (simp add: k s c key colon sep c3 kvs del: parse_value.simps)
      qed
      with ihv l0 l1 l2 l3 l4 show ?thesis by (simp add: kvs)
    qed
  qed
  from v e m show ?case by blast
qed

text \<open>Whatever bound finds a parse of the whole text, \<open>fragment_parse\<close> finds it.\<close>

lemma fragment_parse_any_fuel:
  assumes "parse_value n (skip_ws s) = Some (v, r)" and "skip_ws r = []"
  shows "fragment_parse s = Inr v"
proof -
  from assms(1) have "length (skip_ws s) - length r \<le> Suc (length s)"
    using length_skip_ws [of s] by simp
  with assms(1) have "parse_value (Suc (length s)) (skip_ws s) = Some (v, r)"
    using parse_fuel_enough [of n] by blast
  with assms(2) show ?thesis
    by (simp add: fragment_parse_def del: parse_value.simps)
qed

lemma fragment_parse_error_any_fuel:
  assumes "fragment_parse s = Inl e"
  shows "parse_value n (skip_ws s) = None
    \<or> (\<exists>v r. parse_value n (skip_ws s) = Some (v, r) \<and> skip_ws r \<noteq> [])"
proof (cases "parse_value n (skip_ws s)")
  case None
  then show ?thesis by simp
next
  case (Some x)
  obtain v r where x: "x = (v, r)" by (cases x)
  show ?thesis
  proof (cases "skip_ws r = []")
    case True
    with Some x have "fragment_parse s = Inr v"
      by (intro fragment_parse_any_fuel) simp_all
    with assms show ?thesis by simp
  next
    case False
    with Some x show ?thesis by simp
  qed
qed

subsection \<open>The round trip\<close>

lemma fragment_parse_stringify: "fragment_parse (fragment_stringify v) = Inr v"
proof -
  obtain c cs where s: "fragment_stringify v = c # cs" and c: "value_start c"
    using fragment_stringify_start [of v] by auto
  have "parse_value (Suc (size v)) (fragment_stringify v @ []) = Some (v, [])"
    by (intro parse_value_stringify) (simp_all add: number_follow_simps)
  moreover have "skip_ws (fragment_stringify v) = fragment_stringify v"
    using c by (simp add: s skip_ws_value_start)
  ultimately have "parse_value (Suc (size v)) (skip_ws (fragment_stringify v)) = Some (v, [])"
    by simp
  then show ?thesis
    by (rule fragment_parse_any_fuel) (rule skip_ws_Nil)
qed

section \<open>Properties of the cache store adapter\<close>

lemma fragment_parse_garbage: "fragment_parse ''{oops'' = Inl SyntaxError"
  by (simp add: fragment_parse_def skip_ws_def is_ws_def)

text \<open>
  C1. A key whose stored payload is non-empty and does not parse: \<^verbatim>\<open>getCachedJson\<close>
  answers absent (\<^verbatim>\<open>null\<close>), the parse error does not reach the caller (the call
  returns a value), the key is deleted and no longer exists in the store it leaves, and
  every other key is as it was. This holds whatever function \<^verbatim>\<open>JSON.parse\<close> is.
\<close>

theorem getCachedJson_self_heal:
  assumes "redis_get redis key = Some payload"
    and "payload \<noteq> []"
    and "JSON_parse payload = Inl e"
  shows "fst (getCachedJson JSON_parse redis key) = JNull
    \<and> snd (getCachedJson JSON_parse redis key) = redis_del redis key
    \<and> \<not> redis_exists (snd (getCachedJson JSON_parse redis key)) key
    \<and> redis_get (snd (getCachedJson JSON_parse redis key)) key = None
    \<and> (\<forall>k. k \<noteq> key \<longrightarrow> snd (getCachedJson JSON_parse redis key) k = redis k)"
proof -
  have "getCachedJson JSON_parse redis key = (JNull, redis_del redis key)"
    using assms by (simp add: getCachedJson_def)
  then show ?thesis
    by (simp add: redis_del_def redis_exists_def redis_get_def)
qed

theorem getCachedJson_self_heal_witness:
  "redis_get (redis_set Map.empty ''feed:1'' ''{oops'') ''feed:1'' = Some ''{oops''
   \<and> fragment_parse ''{oops'' = Inl SyntaxError
   \<and> fst (getCachedJson fragment_parse (redis_set Map.empty ''feed:1'' ''{oops'') ''feed:1'')
       = JNull
   \<and> \<not> redis_exists
        (snd (getCachedJson fragment_parse (redis_set Map.empty ''feed:1'' ''{oops'') ''feed:1''))
        ''feed:1''"
proof -
  have g: "redis_get (redis_set Map.empty ''feed:1'' ''{oops'') ''feed:1'' = Some ''{oops''"
    by (simp add: redis_get_def redis_set_def)
  have n: "''{oops'' \<noteq> []" by simp
  from getCachedJson_self_heal [where JSON_parse = fragment_parse, OF g n fragment_parse_garbage]
    g fragment_parse_garbage
  show ?thesis by blast
qed

text \<open>
  C5. \<^verbatim>\<open>setCachedJson\<close> stores the JSON serialization of the value under the key,
  with expiry \<^verbatim>\<open>ttlSeconds\<close> when \<^verbatim>\<open>ttlSeconds > 0\<close> and with no expiry when
  \<^verbatim>\<open>ttlSeconds <= 0\<close>; no other key changes. This holds whatever function
  \<^verbatim>\<open>JSON.stringify\<close> is and whatever the value.
\<close>

theorem setCachedJson_stores:
  "redis_get (setCachedJson JSON_stringify redis key v ttlSeconds) key = Some (JSON_stringify v)
   \<and> (ttlSeconds > 0 \<longrightarrow>
        redis_expiry (setCachedJson JSON_stringify redis key v ttlSeconds) key = Some ttlSeconds)
   \<and> (ttlSeconds \<le> 0 \<longrightarrow>
        redis_expiry (setCachedJson JSON_stringify redis key v ttlSeconds) key = None)
   \<and> (\<forall>k. k \<noteq> key \<longrightarrow> setCachedJson JSON_stringify redis key v ttlSeconds k = redis k)"
  by (simp add: setCachedJson_def Let_def redis_get_def redis_expiry_def redis_set_def
      redis_set_ex_def)

theorem setCachedJson_stores_witness:
  "redis_get (setCachedJson fragment_stringify Map.empty ''feed:1'' (JArr [JNum 7]) 60) ''feed:1''
     = Some ''[7]''
   \<and> redis_expiry (setCachedJson fragment_stringify Map.empty ''feed:1'' (JArr [JNum 7]) 60)
        ''feed:1'' = Some 60
   \<and> redis_expiry (setCachedJson fragment_stringify Map.empty ''trending'' (JArr [JNum 7]) 0)
        ''trending'' = None
   \<and> redis_expiry
        (setCachedJson fragment_stringify
          (setCachedJson fragment_stringify Map.empty ''k'' JNull 60) ''k'' JNull (- 1)) ''k''
       = None"
proof -
  have s: "fragment_stringify (JArr [JNum 7]) = ''[7]''"
    by code_simp
  from setCachedJson_stores [of fragment_stringify Map.empty "''feed:1''" "JArr [JNum 7]" 60]
       setCachedJson_stores [of fragment_stringify Map.empty "''trending''" "JArr [JNum 7]" 0]
       setCachedJson_stores [of fragment_stringify
         "setCachedJson fragment_stringify Map.empty ''k'' JNull 60" "''k''" JNull "- 1"]
       s
  show ?thesis by simp
qed

lemma getCachedJson_setCachedJson:
  assumes "json_serializable JSON_parse JSON_stringify v"
  shows "getCachedJson JSON_parse (setCachedJson JSON_stringify redis key v ttl) key
     = (v, setCachedJson JSON_stringify redis key v ttl)"
proof -
  have "redis_get (setCachedJson JSON_stringify redis key v ttl) key = Some (JSON_stringify v)"
    by (simp add: setCachedJson_def Let_def redis_get_def redis_set_def redis_set_ex_def)
  with assms show ?thesis
    by (simp add: getCachedJson_def json_serializable_def)
qed

lemma getCachedJson_missing:
  "redis_get redis key = None \<Longrightarrow> getCachedJson JSON_parse redis key = (JNull, redis)"
  by (simp add: getCachedJson_def)

text \<open>
  Every value of the integer fragment is JSON-serializable under the fragment's codec, so
  with that codec the adapter reads back every such value it wrote.
\<close>

lemma fragment_serializable: "json_serializable fragment_parse fragment_stringify v"
  by (simp add: json_serializable_def fragment_stringify_not_Nil fragment_parse_stringify)

lemma fragment_cache_round_trip:
  "getCachedJson fragment_parse (setCachedJson fragment_stringify redis key v ttl) key
     = (v, setCachedJson fragment_stringify redis key v ttl)"
  using fragment_serializable by (rule getCachedJson_setCachedJson)

lemma half_serializable: "json_serializable half_parse half_stringify (JNum (1 / 2))"
  by (simp add: json_serializable_def half_parse_def half_stringify_def)

text \<open>
  C9. Round trip: for every key and every JSON-serializable value other than \<^verbatim>\<open>null\<close>
  (every value that \<^verbatim>\<open>JSON.stringify\<close> writes as a text which \<^verbatim>\<open>JSON.parse\<close> reads
  back as the same value; its numbers may be any the runtime has),
  \<^verbatim>\<open>setCachedJson\<close> followed by \<^verbatim>\<open>getCachedJson\<close> on the same key returns the value
  (and so something other than absent), and the read leaves the store as the write left
  it. For \<^verbatim>\<open>null\<close>, itself serializable, the read returns \<^verbatim>\<open>null\<close>, which is the
  answer for a key that is not in the store: a stored \<^verbatim>\<open>null\<close> and a missing key are
  the same to the caller.
\<close>

theorem cache_round_trip:
  assumes "json_serializable JSON_parse JSON_stringify v"
  shows "fst (getCachedJson JSON_parse (setCachedJson JSON_stringify redis key v ttlSeconds) key) = v
   \<and> (v \<noteq> JNull \<longrightarrow>
        fst (getCachedJson JSON_parse (setCachedJson JSON_stringify redis key v ttlSeconds) key)
          \<noteq> JNull)
   \<and> (v = JNull \<longrightarrow>
        fst (getCachedJson JSON_parse (setCachedJson JSON_stringify redis key v ttlSeconds) key)
          = JNull
        \<and> (redis_get redis' key = None \<longrightarrow>
              fst (getCachedJson JSON_parse redis' key)
                = fst (getCachedJson JSON_parse
                        (setCachedJson JSON_stringify redis key v ttlSeconds) key)))
   \<and> snd (getCachedJson JSON_parse (setCachedJson JSON_stringify redis key v ttlSeconds) key)
        = setCachedJson JSON_stringify redis key v ttlSeconds"
proof -
  have "getCachedJson JSON_parse (setCachedJson JSON_stringify redis key v ttlSeconds) key
      = (v, setCachedJson JSON_stringify redis key v ttlSeconds)"
    using assms by (rule getCachedJson_setCachedJson)
  then show ?thesis
    by (auto simp: getCachedJson_missing)
qed

text \<open>
  The witness: with the codec of the integer fragment, an object with an array, a string
  with a line feed and a \<^verbatim>\<open>null\<close> member is read back as written, and a stored
  \<^verbatim>\<open>null\<close> reads as the missing key does. With the pair that knows the text of
  \<^verbatim>\<open>0.5\<close>, the number one half is stored as that text and read back as written.
\<close>

theorem cache_round_trip_witness:
  "json_serializable fragment_parse fragment_stringify
     (JObj [(''items'', JArr [JNum 7, JStr ''a\<newline>b'', JBool True]), (''nextCursor'', JNull)])
   \<and> JObj [(''items'', JArr [JNum 7, JStr ''a\<newline>b'', JBool True]), (''nextCursor'', JNull)]
       \<noteq> (JNull :: fragment_json)
   \<and> fst (getCachedJson fragment_parse
        (setCachedJson fragment_stringify Map.empty ''feed:1''
          (JObj [(''items'', JArr [JNum 7, JStr ''a\<newline>b'', JBool True]), (''nextCursor'', JNull)]) 60)
        ''feed:1'')
      = JObj [(''items'', JArr [JNum 7, JStr ''a\<newline>b'', JBool True]), (''nextCursor'', JNull)]
   \<and> json_serializable fragment_parse fragment_stringify JNull
   \<and> redis_get Map.empty ''feed:1'' = None
   \<and> fst (getCachedJson fragment_parse Map.empty ''feed:1'')
      = fst (getCachedJson fragment_parse
              (setCachedJson fragment_stringify Map.empty ''feed:1'' JNull 60) ''feed:1'')
   \<and> fst (getCachedJson fragment_parse
        (setCachedJson fragment_stringify Map.empty ''feed:1'' JNull 60) ''feed:1'') = JNull
   \<and> json_serializable half_parse half_stringify (JNum (1 / 2))
   \<and> redis_get (setCachedJson half_stringify Map.empty ''score'' (JNum (1 / 2)) 0) ''score''
      = Some ''0.5''
   \<and> fst (getCachedJson half_parse
        (setCachedJson half_stringify Map.empty ''score'' (JNum (1 / 2)) 0) ''score'')
      = JNum (1 / 2)"
proof -
  let ?v = "JObj [(''items'', JArr [JNum 7, JStr ''a\<newline>b'', JBool True]), (''nextCursor'', JNull)]
    :: fragment_json"
  have ser: "json_serializable fragment_parse fragment_stringify ?v"
    by (rule fragment_serializable)
  have ser_null: "json_serializable fragment_parse fragment_stringify JNull"
    by (rule fragment_serializable)
  have nonnull: "?v \<noteq> JNull"
    by simp
  have missing: "redis_get Map.empty ''feed:1'' = None"
    by (simp add: redis_get_def)
  have returned: "fst (getCachedJson fragment_parse
      (setCachedJson fragment_stringify Map.empty ''feed:1'' ?v 60) ''feed:1'') = ?v"
    using cache_round_trip [OF ser, of Map.empty "''feed:1''" 60] by (rule conjunct1)
  note n = cache_round_trip [OF ser_null, of Map.empty "''feed:1''" 60 Map.empty,
      THEN conjunct2, THEN conjunct2, THEN conjunct1, rule_format, OF refl]
  have null: "fst (getCachedJson fragment_parse
      (setCachedJson fragment_stringify Map.empty ''feed:1'' JNull 60) ''feed:1'') = JNull"
    using n by (rule conjunct1)
  have same: "fst (getCachedJson fragment_parse Map.empty ''feed:1'')
      = fst (getCachedJson fragment_parse
              (setCachedJson fragment_stringify Map.empty ''feed:1'' JNull 60) ''feed:1'')"
    using n [THEN conjunct2, rule_format, OF missing] .
  have stored: "redis_get (setCachedJson half_stringify Map.empty ''score'' (JNum (1 / 2)) 0) ''score''
      = Some ''0.5''"
    by (simp add: setCachedJson_def redis_get_def redis_set_def half_stringify_def)
  have half: "fst (getCachedJson half_parse
      (setCachedJson half_stringify Map.empty ''score'' (JNum (1 / 2)) 0) ''score'') = JNum (1 / 2)"
    using cache_round_trip [OF half_serializable, of Map.empty "''score''" 0] by (rule conjunct1)
  from ser nonnull returned ser_null missing same null half_serializable stored half
  show ?thesis
    by (intro conjI)
qed

section \<open>Properties of the configuration cache\<close>

lemma loadConfig_cached:
  "loadConfig safeParse env (Some config) = (Inr config, Some config)"
  by (simp add: loadConfig_def)

lemma loadConfig_success_caches:
  assumes "loadConfig safeParse env cachedConfig = (Inr config, cachedConfig')"
  shows "cachedConfig' = Some config"
  using assms
  by (auto simp: loadConfig_def split: option.splits sum.splits)

lemma loadConfig_calls_cached:
  "loadConfig_calls safeParse envs (Some config)
     = (replicate (length envs) (Inr config), Some config)"
  by (induction envs) (simp_all add: loadConfig_cached)

lemma loadConfig_throws_unchanged:
  assumes "fst (loadConfig safeParse env cachedConfig) = Inl e"
  shows "snd (loadConfig safeParse env cachedConfig) = cachedConfig"
  using assms
  by (auto simp: loadConfig_def split: option.splits sum.splits)

lemma loadConfig_fresh:
  "loadConfig safeParse env None
     = (case safeParse env of
          Inl issues \<Rightarrow>
            (Inl (Error (''ContentService configuration invalid: ''
                   @ join_with ''; '' (map issue_text issues))), None)
        | Inr data \<Rightarrow> (Inr data, Some data))"
  by (simp add: loadConfig_def)

text \<open>
  C10. \<^verbatim>\<open>loadConfig\<close> is memoized. After one successful call every later call, whatever
  the environment has become, answers the same configuration and leaves the cache as it
  is; this holds for any run of later calls. \<^verbatim>\<open>resetConfigCache\<close> clears the cache, and
  the next call parses the environment of that moment again. When the cache is empty and
  parsing fails, \<^verbatim>\<open>loadConfig\<close> throws the error that lists the issues and the cache
  stays empty; a call that throws, from any state, leaves the cache unchanged.
\<close>

theorem loadConfig_memoized:
  "(loadConfig safeParse env cachedConfig = (Inr config, cachedConfig') \<longrightarrow>
      (\<forall>env'. loadConfig safeParse env' cachedConfig' = (Inr config, cachedConfig'))
      \<and> (\<forall>envs. loadConfig_calls safeParse envs cachedConfig'
            = (replicate (length envs) (Inr config), cachedConfig')))
   \<and> loadConfig safeParse env (resetConfigCache cachedConfig)
       = (case safeParse env of
            Inl issues \<Rightarrow>
              (Inl (Error (''ContentService configuration invalid: ''
                     @ join_with ''; '' (map issue_text issues))), None)
          | Inr data \<Rightarrow> (Inr data, Some data))
   \<and> (safeParse env = Inl issues \<longrightarrow>
        loadConfig safeParse env None
          = (Inl (Error (''ContentService configuration invalid: ''
                   @ join_with ''; '' (map issue_text issues))), None))
   \<and> (\<forall>e. fst (loadConfig safeParse env cachedConfig) = Inl e \<longrightarrow>
          snd (loadConfig safeParse env cachedConfig) = cachedConfig)"
proof (intro conjI impI allI)
  fix env' envs
  assume ok: "loadConfig safeParse env cachedConfig = (Inr config, cachedConfig')"
  then have c: "cachedConfig' = Some config"
    by (rule loadConfig_success_caches)
  show "loadConfig safeParse env' cachedConfig' = (Inr config, cachedConfig')"
    by (simp add: c loadConfig_cached)
  show "loadConfig_calls safeParse envs cachedConfig'
        = (replicate (length envs) (Inr config), cachedConfig')"
    by (simp add: c loadConfig_calls_cached)
next
  show "loadConfig safeParse env (resetConfigCache cachedConfig)
       = (case safeParse env of
            Inl issues \<Rightarrow>
              (Inl (Error (''ContentService configuration invalid: ''
                     @ join_with ''; '' (map issue_text issues))), None)
          | Inr data \<Rightarrow> (Inr data, Some data))"
    by (simp add: resetConfigCache_def loadConfig_fresh)
next
  assume "safeParse env = Inl issues"
  then show "loadConfig safeParse env None
          = (Inl (Error (''ContentService configuration invalid: ''
                   @ join_with ''; '' (map issue_text issues))), None)"
    by (simp add: loadConfig_fresh)
next
  fix e
  assume "fst (loadConfig safeParse env cachedConfig) = Inl e"
  then show "snd (loadConfig safeParse env cachedConfig) = cachedConfig"
    by (rule loadConfig_throws_unchanged)
qed

text \<open>
  The witness: a first call that succeeds on \<^verbatim>\<open>REDIS_URL=redis://a\<close>; later calls see
  \<^verbatim>\<open>redis://b\<close> or no variable at all and still answer \<^verbatim>\<open>redis://a\<close>; after a reset
  the call answers \<^verbatim>\<open>redis://b\<close>; with an empty cache and no variable the call throws.
\<close>

theorem loadConfig_memoized_witness:
  "loadConfig (required_entry_schema ''REDIS_URL'') [''REDIS_URL'' \<mapsto> ''redis://a''] None
     = (Inr ''redis://a'', Some ''redis://a'')
   \<and> loadConfig (required_entry_schema ''REDIS_URL'') [''REDIS_URL'' \<mapsto> ''redis://b'']
        (Some ''redis://a'')
     = (Inr ''redis://a'', Some ''redis://a'')
   \<and> loadConfig_calls (required_entry_schema ''REDIS_URL'')
        [Map.empty, [''REDIS_URL'' \<mapsto> ''redis://b'']] (Some ''redis://a'')
     = ([Inr ''redis://a'', Inr ''redis://a''], Some ''redis://a'')
   \<and> loadConfig (required_entry_schema ''REDIS_URL'') [''REDIS_URL'' \<mapsto> ''redis://b'']
        (resetConfigCache (Some ''redis://a''))
     = (Inr ''redis://b'', Some ''redis://b'')
   \<and> required_entry_schema ''REDIS_URL'' Map.empty
     = Inl [\<lparr>path = [''REDIS_URL''], message = ''Required''\<rparr>]
   \<and> loadConfig (required_entry_schema ''REDIS_URL'') Map.empty None
     = (Inl (Error ''ContentService configuration invalid: REDIS_URL: Required''), None)"
proof -
  have first: "loadConfig (required_entry_schema ''REDIS_URL'') [''REDIS_URL'' \<mapsto> ''redis://a''] None
     = (Inr ''redis://a'', Some ''redis://a'')"
    by (simp add: loadConfig_def required_entry_schema_def)
  have reparsed: "required_entry_schema ''REDIS_URL'' [''REDIS_URL'' \<mapsto> ''redis://b'']
     = Inr ''redis://b''"
    by (simp add: required_entry_schema_def)
  have missing: "required_entry_schema ''REDIS_URL'' Map.empty
     = Inl [\<lparr>path = [''REDIS_URL''], message = ''Required''\<rparr>]"
    by (simp add: required_entry_schema_def)
  note m = loadConfig_memoized [of "required_entry_schema ''REDIS_URL''"
      "[''REDIS_URL'' \<mapsto> ''redis://a'']" None "''redis://a''" "Some ''redis://a''"]
  note later = m [THEN conjunct1, rule_format, OF first]
  have second: "loadConfig (required_entry_schema ''REDIS_URL'') [''REDIS_URL'' \<mapsto> ''redis://b'']
        (Some ''redis://a'')
     = (Inr ''redis://a'', Some ''redis://a'')"
    using later by blast
  have "loadConfig_calls (required_entry_schema ''REDIS_URL'')
        [Map.empty, [''REDIS_URL'' \<mapsto> ''redis://b'']] (Some ''redis://a'')
     = (replicate (length [Map.empty, [''REDIS_URL'' \<mapsto> ''redis://b'']]) (Inr ''redis://a''),
        Some ''redis://a'')"
    using later by blast
  then have run: "loadConfig_calls (required_entry_schema ''REDIS_URL'')
        [Map.empty, [''REDIS_URL'' \<mapsto> ''redis://b'']] (Some ''redis://a'')
     = ([Inr ''redis://a'', Inr ''redis://a''], Some ''redis://a'')"
    by (simp add: numeral_2_eq_2)
  have again: "loadConfig (required_entry_schema ''REDIS_URL'') [''REDIS_URL'' \<mapsto> ''redis://b'']
        (resetConfigCache (Some ''redis://a''))
     = (Inr ''redis://b'', Some ''redis://b'')"
    using loadConfig_memoized [of "required_entry_schema ''REDIS_URL''"
      "[''REDIS_URL'' \<mapsto> ''redis://b'']" "Some ''redis://a''", THEN conjunct2, THEN conjunct1]
    unfolding reparsed by simp
  have failing: "loadConfig (required_entry_schema ''REDIS_URL'') Map.empty None
     = (Inl (Error ''ContentService configuration invalid: REDIS_URL: Required''), None)"
    using loadConfig_memoized [of "required_entry_schema ''REDIS_URL''" Map.empty,
      THEN conjunct2, THEN conjunct2, THEN conjunct1, rule_format, OF missing]
    by (simp add: issue_text_def)
  from first second run again missing failing show ?thesis
    by (intro conjI)
qed

section \<open>Properties of the internal routes\<close>

lemma episode_assets_route_not_found:
  "fst (episode_assets_route episode (Inl (CatalogServiceError ''NOT_FOUND'' msg)))
     = Inr \<lparr>status = 404, headers = [], body = MessageBody msg\<rparr>"
  by (simp add: episode_assets_route_def)

lemma episode_assets_route_failed_precondition:
  "fst (episode_assets_route episode (Inl (CatalogServiceError ''FAILED_PRECONDITION'' msg)))
     = Inr \<lparr>status = 412, headers = [], body = MessageBody msg\<rparr>"
  by (simp add: episode_assets_route_def)

lemma media_processed_route_not_found:
  "fst (media_processed_route episode (Inl (CatalogServiceError ''NOT_FOUND'' msg)))
     = Inr \<lparr>status = 404, headers = [], body = MessageBody msg\<rparr>"
  by (simp add: media_processed_route_def)

lemma media_processed_route_failed_precondition:
  "fst (media_processed_route episode (Inl (CatalogServiceError ''FAILED_PRECONDITION'' msg)))
     = Inr \<lparr>status = 412, headers = [], body = MessageBody msg\<rparr>"
  by (simp add: media_processed_route_def)

lemma category_route_not_found:
  "fst (category_route (Inl (CatalogServiceError ''NOT_FOUND'' msg)))
     = Inl (HttpError 404 ''Category not found'')"
  by (simp add: category_route_def)

lemma category_route_other_code:
  assumes "code \<noteq> ''NOT_FOUND''"
  shows "fst (category_route (Inl (CatalogServiceError code msg)))
     = Inl (HttpError 500 ''Unable to fetch category'')"
  using assms by (simp add: category_route_def)

text \<open>
  C7, as stated, fails on the category route: when \<^verbatim>\<open>getCategoryById\<close> fails with a
  \<^verbatim>\<open>CatalogServiceError\<close> tagged \<^verbatim>\<open>FAILED_PRECONDITION\<close>, the handler logs the
  error and throws \<^verbatim>\<open>internalServerError\<close>: the client receives 500, not 412.
\<close>

theorem category_route_failed_precondition_counterexample:
  "client_status
     (fst (category_route
        (Inl (CatalogServiceError ''FAILED_PRECONDITION'' ''category is archived'')
           :: thrown + string)))
   = 500
   \<and> client_status
     (fst (category_route
        (Inl (CatalogServiceError ''FAILED_PRECONDITION'' ''category is archived'')
           :: thrown + string)))
   \<noteq> 412"
  by (simp add: category_route_def client_status_def)

text \<open>
  C7, amended. When \<^verbatim>\<open>registerEpisodeAsset\<close> fails with a domain error tagged
  \<^verbatim>\<open>NOT_FOUND\<close> the route layer responds 404, and when it fails with
  \<^verbatim>\<open>FAILED_PRECONDITION\<close> it responds 412, carrying the error's message, on the
  episode assets route and on the media-processed event route alike. When
  \<^verbatim>\<open>getCategoryById\<close> fails with \<^verbatim>\<open>NOT_FOUND\<close> the route layer responds 404; when
  it fails with any other code, \<^verbatim>\<open>FAILED_PRECONDITION\<close> included, it responds 500.
\<close>

theorem internal_routes_error_status:
  "client_status (fst (episode_assets_route episode
        (Inl (CatalogServiceError ''NOT_FOUND'' msg) :: thrown + 'p))) = 404
   \<and> client_status (fst (episode_assets_route episode
        (Inl (CatalogServiceError ''FAILED_PRECONDITION'' msg) :: thrown + 'p))) = 412
   \<and> fst (episode_assets_route episode
        (Inl (CatalogServiceError ''FAILED_PRECONDITION'' msg) :: thrown + 'p))
      = Inr \<lparr>status = 412, headers = [], body = MessageBody msg\<rparr>
   \<and> client_status (fst (media_processed_route episode
        (Inl (CatalogServiceError ''NOT_FOUND'' msg) :: thrown + 'p))
          :: thrown + 'p http_reply) = 404
   \<and> client_status (fst (media_processed_route episode
        (Inl (CatalogServiceError ''FAILED_PRECONDITION'' msg) :: thrown + 'p))
          :: thrown + 'p http_reply) = 412
   \<and> client_status (fst (category_route
        (Inl (CatalogServiceError ''NOT_FOUND'' msg) :: thrown + 'p))) = 404
   \<and> (code \<noteq> ''NOT_FOUND'' \<longrightarrow>
        client_status (fst (category_route
          (Inl (CatalogServiceError code msg) :: thrown + 'p))) = 500)"
  by (simp add: episode_assets_route_not_found episode_assets_route_failed_precondition
      media_processed_route_not_found media_processed_route_failed_precondition
      category_route_not_found category_route_other_code client_status_def)

theorem internal_routes_error_status_witness:
  "client_status (fst (episode_assets_route ''ep-1''
        (Inl (CatalogServiceError ''NOT_FOUND'' ''Episode not found'') :: thrown + string))) = 404
   \<and> client_status (fst (episode_assets_route ''ep-1''
        (Inl (CatalogServiceError ''FAILED_PRECONDITION'' ''Episode not found'')
          :: thrown + string))) = 412
   \<and> client_status (fst (category_route
        (Inl (CatalogServiceError ''NOT_FOUND'' ''Episode not found'') :: thrown + string))) = 404
   \<and> ''CONFLICT'' \<noteq> ''NOT_FOUND''
   \<and> client_status (fst (category_route
        (Inl (CatalogServiceError ''CONFLICT'' ''Episode not found'') :: thrown + string))) = 500"
proof -
  have other: "''CONFLICT'' \<noteq> ''NOT_FOUND''"
    by simp
  from internal_routes_error_status [where ?'p = string,
      of "''ep-1''" "''Episode not found''" "''CONFLICT''"] other
  show ?thesis by blast
qed

section \<open>Properties of the viewer catalog routes\<close>

lemma check_item_first:
  "check_item ctx item = (case item_issues ctx item of [] \<Rightarrow> None | issue # others \<Rightarrow> Some issue)"
  by (simp add: check_item_def item_issues_def)

lemma first_issue_all_issues:
  "first_issue ctx items
     = (case all_issues ctx items of [] \<Rightarrow> None | issue # others \<Rightarrow> Some issue)"
proof (induction items)
  case Nil
  show ?case by (simp add: all_issues_def)
next
  case (Cons item items)
  show ?case
  proof (cases "item_issues ctx item")
    case Nil
    with Cons show ?thesis
      by (simp add: all_issues_def check_item_first)
  next
    case (Cons issue others)
    then show ?thesis
      by (simp add: all_issues_def check_item_first)
  qed
qed

lemma validateFeed_fail_fast:
  assumes "all_issues ctx items \<noteq> []"
  shows "validateFeed ctx items = Inl (CatalogConsistencyError (hd (all_issues ctx items)))"
  using assms
  by (cases "all_issues ctx items") (simp_all add: validateFeed_def first_issue_all_issues)

lemma quality_failure_reply:
  "fst (quality_failure log_message (CatalogConsistencyError issue))
     = Inr \<lparr>status = 500, headers = [],
            body = IssueBody ''Catalog data quality issue'' (kind issue)\<rparr>"
  by (simp add: quality_failure_def)

text \<open>
  The categories route is the one viewer route without the \<^verbatim>\<open>catch\<close> block: whatever
  \<^verbatim>\<open>listCategories\<close> throws reaches the framework's error handler as it is. The
  monitor's checks, as the spec lists them, are on feed items and series details, not on
  categories.
\<close>

lemma categories_route_rethrows:
  "categories_route ttl (Inl error) = (Inl error, [])"
  by (simp add: categories_route_def)

text \<open>
  C2. When the feed payload has a data-quality violation, \<^verbatim>\<open>getFeed\<close> raises a
  \<^verbatim>\<open>CatalogConsistencyError\<close> that wraps one issue, the first of all the violations in
  the order the items and their checks are scanned, and the feed route answers 500 with
  the kind of that issue in the body and no payload. Each of the three routes with the
  \<^verbatim>\<open>catch\<close> block maps a \<^verbatim>\<open>CatalogConsistencyError\<close> to that 500 reply.
\<close>

theorem quality_violation_fails_fast:
  assumes "all_issues ctx items \<noteq> []"
  shows "getFeed ctx items cursor cached
      = Inl (CatalogConsistencyError (hd (all_issues ctx items)))
    \<and> fst (feed_route ttl (getFeed ctx items cursor cached))
      = Inr \<lparr>status = 500, headers = [],
             body = IssueBody ''Catalog data quality issue'' (kind (hd (all_issues ctx items)))\<rparr>
    \<and> client_status (fst (feed_route ttl (getFeed ctx items cursor cached))) = 500
    \<and> fst (feed_route ttl (Inl (CatalogConsistencyError issue) :: thrown + 'p query_result))
      = Inr \<lparr>status = 500, headers = [],
             body = IssueBody ''Catalog data quality issue'' (kind issue)\<rparr>
    \<and> fst (series_detail_route ttl
        (Inl (CatalogConsistencyError issue) :: thrown + 'p query_result option))
      = Inr \<lparr>status = 500, headers = [],
             body = IssueBody ''Catalog data quality issue'' (kind issue)\<rparr>
    \<and> fst (related_series_route ttl
        (Inl (CatalogConsistencyError issue) :: thrown + 'p query_result option))
      = Inr \<lparr>status = 500, headers = [],
             body = IssueBody ''Catalog data quality issue'' (kind issue)\<rparr>"
proof -
  have raised: "getFeed ctx items cursor cached
      = Inl (CatalogConsistencyError (hd (all_issues ctx items)))"
    using assms by (simp add: getFeed_def validateFeed_fail_fast)
  then have replied: "fst (feed_route ttl (getFeed ctx items cursor cached))
      = Inr \<lparr>status = 500, headers = [],
             body = IssueBody ''Catalog data quality issue'' (kind (hd (all_issues ctx items)))\<rparr>"
    by (simp add: feed_route_def quality_failure_reply)
  then have "client_status (fst (feed_route ttl (getFeed ctx items cursor cached))) = 500"
    by (simp add: client_status_def)
  with raised replied show ?thesis
    by (simp add: feed_route_def series_detail_route_def related_series_route_def
        quality_failure_reply)
qed

text \<open>
  The witness: a feed of three items. The first is clean; the second refers to a series
  that is not known and is playable without an asset (two violations); the third is
  playable without an asset. The error wraps the unresolved series reference of the
  second item, and nothing else.
\<close>

theorem quality_violation_fails_fast_witness:
  "all_issues \<lparr>knownSeries = {''show-a''}, latestTimestamp = 2000\<rparr>
     [\<lparr>contentId = ''e1'', seriesId = Some ''show-a'', playable = True,
        streamingAssetId = Some ''asset-1'', publishedAt = Some 1000\<rparr>,
      \<lparr>contentId = ''e2'', seriesId = Some ''show-x'', playable = True,
        streamingAssetId = None, publishedAt = Some 1000\<rparr>,
      \<lparr>contentId = ''e3'', seriesId = None, playable = True,
        streamingAssetId = None, publishedAt = Some 1000\<rparr>]
   = [\<lparr>kind = FeedItemReferencesNonexistentSeries, episodeId = ''e2''\<rparr>,
      \<lparr>kind = EpisodeMissingFinalizedAsset, episodeId = ''e2''\<rparr>,
      \<lparr>kind = EpisodeMissingFinalizedAsset, episodeId = ''e3''\<rparr>]
   \<and> getFeed \<lparr>knownSeries = {''show-a''}, latestTimestamp = 2000\<rparr>
     [\<lparr>contentId = ''e1'', seriesId = Some ''show-a'', playable = True,
        streamingAssetId = Some ''asset-1'', publishedAt = Some 1000\<rparr>,
      \<lparr>contentId = ''e2'', seriesId = Some ''show-x'', playable = True,
        streamingAssetId = None, publishedAt = Some 1000\<rparr>,
      \<lparr>contentId = ''e3'', seriesId = None, playable = True,
        streamingAssetId = None, publishedAt = Some 1000\<rparr>] None False
   = Inl (CatalogConsistencyError
            \<lparr>kind = FeedItemReferencesNonexistentSeries, episodeId = ''e2''\<rparr>)
   \<and> fst (feed_route 60 (getFeed \<lparr>knownSeries = {''show-a''}, latestTimestamp = 2000\<rparr>
     [\<lparr>contentId = ''e1'', seriesId = Some ''show-a'', playable = True,
        streamingAssetId = Some ''asset-1'', publishedAt = Some 1000\<rparr>,
      \<lparr>contentId = ''e2'', seriesId = Some ''show-x'', playable = True,
        streamingAssetId = None, publishedAt = Some 1000\<rparr>,
      \<lparr>contentId = ''e3'', seriesId = None, playable = True,
        streamingAssetId = None, publishedAt = Some 1000\<rparr>] None False))
   = Inr \<lparr>status = 500, headers = [],
          body = IssueBody ''Catalog data quality issue'' FeedItemReferencesNonexistentSeries\<rparr>"
proof -
  let ?ctx = "\<lparr>knownSeries = {''show-a''}, latestTimestamp = 2000\<rparr>"
  let ?items = "[\<lparr>contentId = ''e1'', seriesId = Some ''show-a'', playable = True,
        streamingAssetId = Some ''asset-1'', publishedAt = Some 1000\<rparr>,
      \<lparr>contentId = ''e2'', seriesId = Some ''show-x'', playable = True,
        streamingAssetId = None, publishedAt = Some 1000\<rparr>,
      \<lparr>contentId = ''e3'', seriesId = None, playable = True,
        streamingAssetId = None, publishedAt = Some 1000\<rparr>]"
  have issues: "all_issues ?ctx ?items
   = [\<lparr>kind = FeedItemReferencesNonexistentSeries, episodeId = ''e2''\<rparr>,
      \<lparr>kind = EpisodeMissingFinalizedAsset, episodeId = ''e2''\<rparr>,
      \<lparr>kind = EpisodeMissingFinalizedAsset, episodeId = ''e3''\<rparr>]"
    by (simp add: all_issues_def item_issues_def series_unresolved_def asset_missing_def
        timestamp_invalid_def issue_of_def)
  then have some: "all_issues ?ctx ?items \<noteq> []"
    by simp
  note q = quality_violation_fails_fast [OF some, of None False 60]
  have raised: "getFeed ?ctx ?items None False
   = Inl (CatalogConsistencyError
            \<lparr>kind = FeedItemReferencesNonexistentSeries, episodeId = ''e2''\<rparr>)"
    using q [THEN conjunct1] by (simp add: issues)
  have replied: "fst (feed_route 60 (getFeed ?ctx ?items None False))
   = Inr \<lparr>status = 500, headers = [],
          body = IssueBody ''Catalog data quality issue'' FeedItemReferencesNonexistentSeries\<rparr>"
    using q [THEN conjunct2, THEN conjunct1] by (simp add: issues)
  from issues raised replied show ?thesis
    by (intro conjI)
qed

text \<open>
  C6. For a slug that does not resolve to a series, \<^verbatim>\<open>getSeriesDetail\<close> and
  \<^verbatim>\<open>getRelatedSeries\<close> return the not-found sentinel as a value (they do not throw),
  and the routes answer it with 404 and the message "Series not found".
\<close>

theorem unresolved_slug_not_found:
  assumes "resolve slug = None"
  shows "getSeriesDetail ctx resolve cached slug = Inr None
    \<and> getRelatedSeries ctx resolve related cached slug limit = Inr None
    \<and> series_detail_route ttl (getSeriesDetail ctx resolve cached slug)
        = (Inr \<lparr>status = 404, headers = [], body = MessageBody ''Series not found''\<rparr>, [])
    \<and> related_series_route ttl' (getRelatedSeries ctx resolve related cached slug limit)
        = (Inr \<lparr>status = 404, headers = [], body = MessageBody ''Series not found''\<rparr>, [])
    \<and> client_status (fst (series_detail_route ttl (getSeriesDetail ctx resolve cached slug)))
        = 404
    \<and> client_status
        (fst (related_series_route ttl' (getRelatedSeries ctx resolve related cached slug limit)))
        = 404"
  using assms
  by (simp add: getSeriesDetail_def getRelatedSeries_def series_detail_route_def
      related_series_route_def client_status_def)

theorem unresolved_slug_not_found_witness:
  "[''show-a'' \<mapsto> \<lparr>series = ''show-a'', seasons = [], standaloneEpisodes = []\<rparr>] ''missing-slug''
     = None
   \<and> getSeriesDetail \<lparr>knownSeries = {''show-a''}, latestTimestamp = 2000\<rparr>
        [''show-a'' \<mapsto> \<lparr>series = ''show-a'', seasons = [], standaloneEpisodes = []\<rparr>]
        False ''missing-slug''
     = Inr None
   \<and> series_detail_route 120
        (getSeriesDetail \<lparr>knownSeries = {''show-a''}, latestTimestamp = 2000\<rparr>
          [''show-a'' \<mapsto> \<lparr>series = ''show-a'', seasons = [], standaloneEpisodes = []\<rparr>]
          False ''missing-slug'')
     = (Inr \<lparr>status = 404, headers = [], body = MessageBody ''Series not found''\<rparr>, [])
   \<and> related_series_route 180
        (getRelatedSeries \<lparr>knownSeries = {''show-a''}, latestTimestamp = 2000\<rparr>
          [''show-a'' \<mapsto> \<lparr>series = ''show-a'', seasons = [], standaloneEpisodes = []\<rparr>]
          standaloneEpisodes False ''missing-slug'' 5)
     = (Inr \<lparr>status = 404, headers = [], body = MessageBody ''Series not found''\<rparr>, [])"
proof -
  have missing:
    "[''show-a'' \<mapsto> \<lparr>series = ''show-a'', seasons = [], standaloneEpisodes = []\<rparr>] ''missing-slug''
     = None"
    by simp
  from unresolved_slug_not_found
      [where resolve = "[''show-a'' \<mapsto> \<lparr>series = ''show-a'', seasons = [], standaloneEpisodes = []\<rparr>]"
         and slug = "''missing-slug''"
         and ctx = "\<lparr>knownSeries = {''show-a''}, latestTimestamp = 2000\<rparr>"
         and cached = False and related = standaloneEpisodes and limit = 5
         and ttl = 120 and ttl' = 180, OF missing]
    missing
  show ?thesis by blast
qed

section \<open>Properties of the trending aggregator\<close>

lemma scoreFor_increment_score:
  "scoreFor (increment_score st c d) c' = (if c' = c then scoreFor st c + d else scoreFor st c')"
  by (simp add: scoreFor_def increment_score_def update_conv')

lemma scoreFor_add_rating: "scoreFor (add_rating st c r) c' = scoreFor st c'"
  by (simp add: scoreFor_def add_rating_def)

lemma ratingFor_increment_score: "ratingFor (increment_score st c d) c' = ratingFor st c'"
  by (simp add: ratingFor_def increment_score_def)

lemma ratingFor_add_rating:
  "ratingFor (add_rating st c r) c'
     = (if c' = c then (fst (ratingFor st c) + r, Suc (snd (ratingFor st c))) else ratingFor st c')"
  by (simp add: ratingFor_def add_rating_def update_conv')

lemma scoreFor_apply_event:
  "scoreFor (apply_event w st e) c
     = (if c = target e then scoreFor st c + score_delta w e else scoreFor st c)"
  by (simp add: apply_event_def Let_def scoreFor_increment_score scoreFor_add_rating
      split: option.split)

lemma ratingFor_apply_event:
  "ratingFor (apply_event w st e) c
     = (case rating e of
          None \<Rightarrow> ratingFor st c
        | Some r \<Rightarrow>
            if c = target e then (fst (ratingFor st c) + r, Suc (snd (ratingFor st c)))
            else ratingFor st c)"
  by (simp add: apply_event_def Let_def ratingFor_increment_score ratingFor_add_rating
      split: option.split)

lemma well_formed_apply_event: "well_formed st \<Longrightarrow> well_formed (apply_event w st e)"
  by (simp add: well_formed_def apply_event_def Let_def increment_score_def add_rating_def
      distinct_update split: option.split)

lemma well_formed_applyMetrics: "well_formed st \<Longrightarrow> well_formed (applyMetrics w events st)"
  unfolding applyMetrics_def
  by (induction events arbitrary: st) (simp_all add: well_formed_apply_event)

lemma well_formed_empty_store: "well_formed empty_store"
  by (simp add: well_formed_def empty_store_def)

text \<open>
  C4. \<^verbatim>\<open>applyMetrics\<close> does not deduplicate: from a score of zero, applying the same
  event twice (in two calls, or twice in one call) leaves exactly double the score that
  applying it once leaves, and once leaves the event's weighted delta.
\<close>

theorem applyMetrics_twice_doubles:
  assumes "scoreFor st (target e) = 0"
  shows "scoreFor (applyMetrics w [e] st) (target e) = score_delta w e
    \<and> scoreFor (applyMetrics w [e] (applyMetrics w [e] st)) (target e)
        = 2 * scoreFor (applyMetrics w [e] st) (target e)
    \<and> scoreFor (applyMetrics w [e, e] st) (target e)
        = 2 * scoreFor (applyMetrics w [e] st) (target e)"
  using assms by (simp add: applyMetrics_def scoreFor_apply_event)

theorem applyMetrics_twice_doubles_witness:
  "scoreFor empty_store ''ep-1'' = 0
   \<and> scoreFor
        (applyMetrics \<lparr>viewWeight = 1 / 10, likeWeight = 1, completionWeight = 1 / 2, ratingWeight = 1 / 5\<rparr>
          [\<lparr>target = ''ep-1'', views = 10, likes = 2, completions = 0, rating = Some 5\<rparr>]
          empty_store) ''ep-1'' = 4
   \<and> scoreFor
        (applyMetrics \<lparr>viewWeight = 1 / 10, likeWeight = 1, completionWeight = 1 / 2, ratingWeight = 1 / 5\<rparr>
          [\<lparr>target = ''ep-1'', views = 10, likes = 2, completions = 0, rating = Some 5\<rparr>]
          (applyMetrics \<lparr>viewWeight = 1 / 10, likeWeight = 1, completionWeight = 1 / 2, ratingWeight = 1 / 5\<rparr>
            [\<lparr>target = ''ep-1'', views = 10, likes = 2, completions = 0, rating = Some 5\<rparr>]
            empty_store)) ''ep-1'' = 8"
proof -
  let ?w = "\<lparr>viewWeight = 1 / 10, likeWeight = 1, completionWeight = 1 / 2, ratingWeight = 1 / 5\<rparr>"
  let ?e = "\<lparr>target = ''ep-1'', views = 10, likes = 2, completions = 0, rating = Some 5\<rparr>"
  have zero: "scoreFor empty_store (target ?e) = 0"
    by (simp add: scoreFor_def empty_store_def)
  have delta: "score_delta ?w ?e = 4"
    by (simp add: score_delta_def)
  note t = applyMetrics_twice_doubles [OF zero, of ?w]
  have once: "scoreFor (applyMetrics ?w [?e] empty_store) ''ep-1'' = 4"
    using t [THEN conjunct1] delta by simp
  have twice: "scoreFor (applyMetrics ?w [?e] (applyMetrics ?w [?e] empty_store)) ''ep-1'' = 8"
    using t [THEN conjunct2, THEN conjunct1] once by simp
  from zero once twice show ?thesis
    by simp
qed

text \<open>
  C8. Metrics events for two different content ids commute: applied in either order they
  leave the same score for both ids (each its old score plus its event's delta), and
  indeed the same score and the same rating aggregate for every content id.
\<close>

theorem applyMetrics_commute:
  assumes "target e1 \<noteq> target e2"
  shows "scoreFor (applyMetrics w [e2] (applyMetrics w [e1] st)) (target e1)
        = scoreFor (applyMetrics w [e1] (applyMetrics w [e2] st)) (target e1)
    \<and> scoreFor (applyMetrics w [e2] (applyMetrics w [e1] st)) (target e2)
        = scoreFor (applyMetrics w [e1] (applyMetrics w [e2] st)) (target e2)
    \<and> scoreFor (applyMetrics w [e2] (applyMetrics w [e1] st)) (target e1)
        = scoreFor st (target e1) + score_delta w e1
    \<and> scoreFor (applyMetrics w [e2] (applyMetrics w [e1] st)) (target e2)
        = scoreFor st (target e2) + score_delta w e2
    \<and> (\<forall>c. scoreFor (applyMetrics w [e2] (applyMetrics w [e1] st)) c
        = scoreFor (applyMetrics w [e1] (applyMetrics w [e2] st)) c)
    \<and> (\<forall>c. ratingFor (applyMetrics w [e2] (applyMetrics w [e1] st)) c
        = ratingFor (applyMetrics w [e1] (applyMetrics w [e2] st)) c)"
  using assms
  by (auto simp: applyMetrics_def scoreFor_apply_event ratingFor_apply_event split: option.split)

theorem applyMetrics_commute_witness:
  "target \<lparr>target = ''ep-1'', views = 10, likes = 2, completions = 0, rating = Some 5\<rparr>
     \<noteq> target \<lparr>target = ''ep-2'', views = 30, likes = 0, completions = 4, rating = None\<rparr>
   \<and> scoreFor
        (applyMetrics \<lparr>viewWeight = 1 / 10, likeWeight = 1, completionWeight = 1 / 2, ratingWeight = 1 / 5\<rparr>
          [\<lparr>target = ''ep-2'', views = 30, likes = 0, completions = 4, rating = None\<rparr>]
          (applyMetrics \<lparr>viewWeight = 1 / 10, likeWeight = 1, completionWeight = 1 / 2, ratingWeight = 1 / 5\<rparr>
            [\<lparr>target = ''ep-1'', views = 10, likes = 2, completions = 0, rating = Some 5\<rparr>]
            empty_store)) ''ep-1''
      = scoreFor
        (applyMetrics \<lparr>viewWeight = 1 / 10, likeWeight = 1, completionWeight = 1 / 2, ratingWeight = 1 / 5\<rparr>
          [\<lparr>target = ''ep-1'', views = 10, likes = 2, completions = 0, rating = Some 5\<rparr>]
          (applyMetrics \<lparr>viewWeight = 1 / 10, likeWeight = 1, completionWeight = 1 / 2, ratingWeight = 1 / 5\<rparr>
            [\<lparr>target = ''ep-2'', views = 30, likes = 0, completions = 4, rating = None\<rparr>]
            empty_store)) ''ep-1''
   \<and> scoreFor
        (applyMetrics \<lparr>viewWeight = 1 / 10, likeWeight = 1, completionWeight = 1 / 2, ratingWeight = 1 / 5\<rparr>
          [\<lparr>target = ''ep-2'', views = 30, likes = 0, completions = 4, rating = None\<rparr>]
          (applyMetrics \<lparr>viewWeight = 1 / 10, likeWeight = 1, completionWeight = 1 / 2, ratingWeight = 1 / 5\<rparr>
            [\<lparr>target = ''ep-1'', views = 10, likes = 2, completions = 0, rating = Some 5\<rparr>]
            empty_store)) ''ep-2''
      = 5"
proof -
  let ?w = "\<lparr>viewWeight = 1 / 10, likeWeight = 1, completionWeight = 1 / 2, ratingWeight = 1 / 5\<rparr>"
  let ?e1 = "\<lparr>target = ''ep-1'', views = 10, likes = 2, completions = 0, rating = Some 5\<rparr>"
  let ?e2 = "\<lparr>target = ''ep-2'', views = 30, likes = 0, completions = 4, rating = None\<rparr>"
  have differ: "target ?e1 \<noteq> target ?e2"
    by simp
  have delta: "score_delta ?w ?e2 = 5"
    by (simp add: score_delta_def)
  have zero: "scoreFor empty_store ''ep-2'' = 0"
    by (simp add: scoreFor_def empty_store_def)
  note t = applyMetrics_commute [OF differ, of ?w empty_store]
  have same: "scoreFor (applyMetrics ?w [?e2] (applyMetrics ?w [?e1] empty_store)) ''ep-1''
      = scoreFor (applyMetrics ?w [?e1] (applyMetrics ?w [?e2] empty_store)) ''ep-1''"
    using t [THEN conjunct1] by simp
  have second: "scoreFor (applyMetrics ?w [?e2] (applyMetrics ?w [?e1] empty_store)) ''ep-2'' = 5"
    using t [THEN conjunct2, THEN conjunct2, THEN conjunct2, THEN conjunct1] delta zero by simp
  from differ same second show ?thesis
    by (intro conjI)
qed

lemma ranked_entry_score:
  assumes "well_formed st" and "(c, s) \<in> set (ranked st)"
  shows "scoreFor st c = s"
  using assms by (simp add: well_formed_def scoreFor_def)

lemma topTrendingEntries_sorted:
  "sorted (map rank_key (topTrendingEntries st n))"
  unfolding topTrendingEntries_def
  by (simp add: take_map [symmetric] sorted_wrt_take)

lemma topTrendingEntries_subset: "set (topTrendingEntries st n) \<subseteq> set (ranked st)"
  unfolding topTrendingEntries_def
  by (metis set_sort set_take_subset)

lemma distinct_keys_sort_key:
  assumes "distinct (map fst xs)"
  shows "distinct (map fst (sort_key f xs))"
  using assms by (simp add: distinct_map)

lemma topTrendingEntries_distinct_keys:
  assumes "well_formed st"
  shows "distinct (map fst (topTrendingEntries st n))"
proof -
  have "distinct (map fst (sort_key rank_key (ranked st)))"
    using assms by (simp add: well_formed_def distinct_keys_sort_key)
  then show ?thesis
    unfolding topTrendingEntries_def by (simp add: take_map [symmetric])
qed

lemma inj_rank_key: "inj rank_key"
  by (auto simp: inj_on_def rank_key_def prod_eq_iff)

lemma rank_key_le:
  "rank_key (c, s) \<le> rank_key (c', s') \<longleftrightarrow> s' < s \<or> (s = s' \<and> c \<le> c')"
  by (auto simp: rank_key_def less_eq_prod_def)

lemma topTrendingEntries_pair_order:
  assumes wf: "well_formed st"
    and ij: "i < j" "j < length (topTrendingEntries st n)"
  shows "scoreFor st (fst (topTrendingEntries st n ! j)) < scoreFor st (fst (topTrendingEntries st n ! i))
     \<or> (scoreFor st (fst (topTrendingEntries st n ! i)) = scoreFor st (fst (topTrendingEntries st n ! j))
        \<and> fst (topTrendingEntries st n ! i) < fst (topTrendingEntries st n ! j))"
proof -
  let ?es = "topTrendingEntries st n"
  obtain ci si where ei: "?es ! i = (ci, si)" by (cases "?es ! i")
  obtain cj sj where ej: "?es ! j = (cj, sj)" by (cases "?es ! j")
  from ij have i: "i < length ?es" by simp
  have "(ci, si) \<in> set (ranked st)"
    using topTrendingEntries_subset [of st n] nth_mem [OF i] ei by auto
  then have si: "scoreFor st ci = si"
    using wf by (simp add: ranked_entry_score)
  have "(cj, sj) \<in> set (ranked st)"
    using topTrendingEntries_subset [of st n] nth_mem [OF ij(2)] ej by auto
  then have sj: "scoreFor st cj = sj"
    using wf by (simp add: ranked_entry_score)
  have "map rank_key ?es ! i \<le> map rank_key ?es ! j"
    using topTrendingEntries_sorted [of st n] ij by (simp add: sorted_iff_nth_mono_less)
  then have le: "sj < si \<or> (si = sj \<and> ci \<le> cj)"
    using i ij ei ej by (simp add: rank_key_le)
  have "map fst ?es ! i \<noteq> map fst ?es ! j"
    using topTrendingEntries_distinct_keys [OF wf, of n] ij i
    by (simp add: nth_eq_iff_index_eq del: nth_map)
  then have "ci \<noteq> cj"
    using i ij ei ej by simp
  with le si sj ei ej show ?thesis
    by auto
qed

lemma topTrending_nth:
  "i < length (topTrending st n) \<Longrightarrow> topTrending st n ! i = fst (topTrendingEntries st n ! i)"
  by (simp add: topTrending_def)

lemma topTrending_same_entries:
  assumes "well_formed st" and "well_formed st'" and "set (ranked st') = set (ranked st)"
  shows "topTrending st' n = topTrending st n"
proof -
  have d: "distinct (ranked st)" "distinct (ranked st')"
    using assms by (auto simp: well_formed_def dest: distinct_map [THEN iffD1])
  have "sort_key rank_key (ranked st') = sort_key rank_key (ranked st)"
  proof (rule map_sorted_distinct_set_unique [where f = rank_key])
    show "inj_on rank_key (set (sort_key rank_key (ranked st')) \<union> set (sort_key rank_key (ranked st)))"
      using inj_rank_key by (rule inj_on_subset) simp
    show "distinct (map rank_key (sort_key rank_key (ranked st')))"
      using d by (simp add: distinct_map inj_on_subset [OF inj_rank_key])
    show "distinct (map rank_key (sort_key rank_key (ranked st)))"
      using d by (simp add: distinct_map inj_on_subset [OF inj_rank_key])
  qed (simp_all add: assms)
  then show ?thesis
    by (simp add: topTrending_def topTrendingEntries_def)
qed

text \<open>
  C3. For every limit and every state of the trending store (a ranked set: each content
  id a member at most once), \<^verbatim>\<open>topTrending\<close> returns content ids in descending score
  order, and two entries of equal score in ascending order of content id. The answer has
  at most \<open>limit\<close> ids, all of them members of the ranked set, and is determined by the set
  of entries alone: repeated calls, and calls on a store that holds the same entries in
  another internal order, give the same list.
\<close>

theorem topTrending_order:
  assumes "well_formed st"
  shows "(\<forall>i j. i < j \<and> j < length (topTrending st n) \<longrightarrow>
        scoreFor st (topTrending st n ! j) < scoreFor st (topTrending st n ! i)
        \<or> (scoreFor st (topTrending st n ! i) = scoreFor st (topTrending st n ! j)
           \<and> topTrending st n ! i < topTrending st n ! j))
    \<and> length (topTrending st n) = min n (length (ranked st))
    \<and> set (topTrending st n) \<subseteq> fst ` set (ranked st)
    \<and> (\<forall>st'. well_formed st' \<and> set (ranked st') = set (ranked st) \<longrightarrow>
          topTrending st' n = topTrending st n)"
proof (intro conjI allI impI)
  fix i j
  assume ij: "i < j \<and> j < length (topTrending st n)"
  then have lt: "i < j" and j: "j < length (topTrendingEntries st n)"
    and i': "i < length (topTrending st n)" and j': "j < length (topTrending st n)"
    by (simp_all add: topTrending_def)
  have nth_i: "topTrending st n ! i = fst (topTrendingEntries st n ! i)"
    using i' by (rule topTrending_nth)
  have nth_j: "topTrending st n ! j = fst (topTrendingEntries st n ! j)"
    using j' by (rule topTrending_nth)
  show "scoreFor st (topTrending st n ! j) < scoreFor st (topTrending st n ! i)
        \<or> (scoreFor st (topTrending st n ! i) = scoreFor st (topTrending st n ! j)
           \<and> topTrending st n ! i < topTrending st n ! j)"
    unfolding nth_i nth_j by (rule topTrendingEntries_pair_order [OF assms lt j])
next
  show "length (topTrending st n) = min n (length (ranked st))"
    by (simp add: topTrending_def topTrendingEntries_def)
next
  show "set (topTrending st n) \<subseteq> fst ` set (ranked st)"
    using topTrendingEntries_subset [of st n] by (auto simp: topTrending_def)
next
  fix st'
  assume "well_formed st' \<and> set (ranked st') = set (ranked st)"
  then have "well_formed st'" and "set (ranked st') = set (ranked st)"
    by simp_all
  with assms show "topTrending st' n = topTrending st n"
    by (rule topTrending_same_entries)
qed

theorem topTrending_order_witness:
  "well_formed \<lparr>ranked = [(''ep-b'', 3), (''ep-a'', 3), (''ep-c'', 8)], ratings = []\<rparr>
   \<and> topTrending \<lparr>ranked = [(''ep-b'', 3), (''ep-a'', 3), (''ep-c'', 8)], ratings = []\<rparr> 3
       = [''ep-c'', ''ep-a'', ''ep-b'']
   \<and> topTrending \<lparr>ranked = [(''ep-c'', 8), (''ep-a'', 3), (''ep-b'', 3)], ratings = []\<rparr> 3
       = [''ep-c'', ''ep-a'', ''ep-b'']
   \<and> scoreFor \<lparr>ranked = [(''ep-b'', 3), (''ep-a'', 3), (''ep-c'', 8)], ratings = []\<rparr> ''ep-a''
       = scoreFor \<lparr>ranked = [(''ep-b'', 3), (''ep-a'', 3), (''ep-c'', 8)], ratings = []\<rparr> ''ep-b''
   \<and> ''ep-a'' < ''ep-b''"
proof -
  let ?st = "\<lparr>ranked = [(''ep-b'', 3), (''ep-a'', 3), (''ep-c'', 8)], ratings = []\<rparr>"
  let ?st' = "\<lparr>ranked = [(''ep-c'', 8), (''ep-a'', 3), (''ep-b'', 3)], ratings = []\<rparr>"
  have wf: "well_formed ?st"
    by (simp add: well_formed_def)
  have wf': "well_formed ?st' \<and> set (ranked ?st') = set (ranked ?st)"
    by (auto simp: well_formed_def)
  have top: "topTrending ?st 3 = [''ep-c'', ''ep-a'', ''ep-b'']"
    by code_simp
  note t = topTrending_order [OF wf, of 3]
  have same: "topTrending ?st' 3 = topTrending ?st 3"
    using t [THEN conjunct2, THEN conjunct2, THEN conjunct2, rule_format, OF wf'] .
  have "scoreFor ?st (topTrending ?st 3 ! 2) < scoreFor ?st (topTrending ?st 3 ! 1)
        \<or> (scoreFor ?st (topTrending ?st 3 ! 1) = scoreFor ?st (topTrending ?st 3 ! 2)
           \<and> topTrending ?st 3 ! 1 < topTrending ?st 3 ! 2)"
    using t [THEN conjunct1, rule_format, of 1 2] by (simp add: top)
  then have tie: "scoreFor ?st ''ep-a'' = scoreFor ?st ''ep-b'' \<and> ''ep-a'' < ''ep-b''"
    by (simp add: top scoreFor_def)
  from wf top same tie show ?thesis
    by simp
qed

end
